theory Spec2Isabelle
  imports Complex_Main "HOL-Library.AList" "HOL-Library.Multiset"
begin

section \<open>Data model of \<^verbatim>\<open>UnsplashRandDownloader\<close>\<close>

text \<open>
  Exceptions that escape a method of the class (they are not caught by any
  \<^verbatim>\<open>try\<close> of \<^verbatim>\<open>_downloader.py\<close>): a missing dictionary key and
  \<^verbatim>\<open>random.choice\<close> on an empty sequence.
\<close>

datatype error = KeyError | IndexError

text \<open>
  A Python \<^verbatim>\<open>dict\<close> with string keys: an association list in insertion
  order. \<^verbatim>\<open>d[k] = v\<close> is \<^const>\<open>AList.update\<close> (an existing key keeps its
  position, a new key goes to the end) and \<^verbatim>\<open>d[k]\<close> raises \<^verbatim>\<open>KeyError\<close>
  for a missing key.
\<close>

type_synonym 'v pydict = "(string \<times> 'v) list"

definition dict_get :: "'v pydict \<Rightarrow> string \<Rightarrow> error + 'v" where
  "dict_get d k = (case map_of d k of None \<Rightarrow> Inl KeyError | Some v \<Rightarrow> Inr v)"

definition dict_set :: "'v pydict \<Rightarrow> string \<Rightarrow> 'v \<Rightarrow> 'v pydict" where
  "dict_set d k v = AList.update k v d"

definition dict_has :: "'v pydict \<Rightarrow> string \<Rightarrow> bool" where
  "dict_has d k = (map_of d k \<noteq> None)"

text \<open>
  The image dictionary built by \<^verbatim>\<open>download_image\<close> and completed by
  \<^verbatim>\<open>manage\<close>: keys \<^verbatim>\<open>"raw"\<close>, \<^verbatim>\<open>"attribution"\<close>, \<^verbatim>\<open>"id"\<close> and
  \<^verbatim>\<open>"file_path"\<close>. The response stream under \<^verbatim>\<open>"raw"\<close> is represented
  by the bytes it delivers.
\<close>

record image =
  raw :: string
  attribution :: string
  img_id :: string
  file_path :: string

text \<open>
  What a file of the storage holds: plain bytes, or the pickle of the
  dictionary \<^verbatim>\<open>{"images": d}\<close> written by \<^verbatim>\<open>pickle_save\<close>.
\<close>

datatype file_content = Bytes string | Pickled "image list pydict"

record world =
  files :: "string \<rightharpoonup> file_content"

datatype thread_state = NotStarted | Alive bool | Finished

text \<open>
  The attributes of the object. \<^verbatim>\<open>max_images_per_hour\<close> is a Python float
  (\<^verbatim>\<open>max_api_requests_per_hour / 2\<close>) and the time stamps are floats; both are
  modelled by exact rationals. \<^verbatim>\<open>thread\<close> is \<^verbatim>\<open>None\<close> or a thread object;
  the flag of \<^const>\<open>Alive\<close> is the local variable \<^verbatim>\<open>first_iteration\<close> of
  \<^verbatim>\<open>manage\<close>. Only the keys of \<^verbatim>\<open>file_locks\<close> are kept.
\<close>

record manager =
  thread :: "thread_state option"
  th_stop :: bool
  file_locks :: "string set"
  setup_done :: bool
  app_name :: string
  referral :: string
  unsplash_attribution :: string
  max_api_requests_per_hour :: int
  max_images_per_hour :: rat
  first_image_in_this_hour :: bool
  t_first_down_image :: rat
  api_requests_counter :: int
  img_width :: int
  img_height :: int
  images_dir :: string
  file_session_path :: string
  topics :: "string list"
  api :: bool
  connected :: bool
  num_images :: int
  num_images_topic :: "int pydict"
  images :: "image list pydict"

definition REQUESTS_PER_IMAGE_DOWNLOAD :: int where
  "REQUESTS_PER_IMAGE_DOWNLOAD = 2"

definition MAX_DEMO_REQUESTS_PER_HOUR :: int where
  "MAX_DEMO_REQUESTS_PER_HOUR = 50"

definition SECONDS_IN_HOUR :: rat where
  "SECONDS_IN_HOUR = 3600"

definition FILE_IMAGES_DATA_SESSION :: string where
  "FILE_IMAGES_DATA_SESSION = ''session_img_data.pkl''"

text \<open>\<^verbatim>\<open>__init__\<close>; \<open>now\<close> is the value of \<^verbatim>\<open>time()\<close>.\<close>

definition init :: "string \<Rightarrow> int \<Rightarrow> rat \<Rightarrow> manager" where
  "init application_name max_requests now =
     \<lparr> thread = None, th_stop = False, file_locks = {}, setup_done = False,
       app_name = application_name,
       referral = ''utm_source='' @ application_name @ ''&utm_medium=referral'',
       unsplash_attribution = ''https://unsplash.com/?utm_source='' @ application_name
          @ ''&utm_medium=referral'',
       max_api_requests_per_hour = max_requests,
       max_images_per_hour = of_int max_requests / of_int REQUESTS_PER_IMAGE_DOWNLOAD,
       first_image_in_this_hour = True, t_first_down_image = now,
       api_requests_counter = 0, img_width = 320, img_height = 240,
       images_dir = [], file_session_path = [], topics = [],
       api = False, connected = False,
       num_images = 0, num_images_topic = [], images = [] \<rparr>"

section \<open>Topic balancer\<close>

text \<open>
  \<^verbatim>\<open>random.choice(seq)\<close>: \<^verbatim>\<open>IndexError\<close> on an empty sequence, otherwise
  the element at a position drawn by the generator; the draw is the argument \<open>r\<close>.
\<close>

definition choice :: "'a list \<Rightarrow> nat \<Rightarrow> error + 'a" where
  "choice xs r = (if xs = [] then Inl IndexError else Inr (xs ! (r mod length xs)))"

text \<open>First loop of \<^verbatim>\<open>get_topic_more_num_images\<close>.\<close>

fun more_len_loop :: "image list pydict \<Rightarrow> string list \<Rightarrow> int \<Rightarrow> error + int" where
  "more_len_loop imgs [] more_len = Inr more_len"
| "more_len_loop imgs (topic # rest) more_len =
     (case dict_get imgs topic of
        Inl e \<Rightarrow> Inl e
      | Inr l \<Rightarrow>
          more_len_loop imgs rest
            (if int (length l) > more_len then int (length l) else more_len))"

text \<open>Second loop of \<^verbatim>\<open>get_topic_more_num_images\<close>.\<close>

fun more_topics_loop ::
  "image list pydict \<Rightarrow> string list \<Rightarrow> int \<Rightarrow> string list \<Rightarrow> error + string list" where
  "more_topics_loop imgs [] more_len acc = Inr acc"
| "more_topics_loop imgs (topic # rest) more_len acc =
     (case dict_get imgs topic of
        Inl e \<Rightarrow> Inl e
      | Inr l \<Rightarrow>
          more_topics_loop imgs rest more_len
            (if int (length l) = more_len then acc @ [topic] else acc))"

definition get_topic_more_num_images :: "manager \<Rightarrow> nat \<Rightarrow> error + string" where
  "get_topic_more_num_images s r =
     (case more_len_loop (images s) (topics s) 0 of
        Inl e \<Rightarrow> Inl e
      | Inr more_len \<Rightarrow>
          (case more_topics_loop (images s) (topics s) more_len [] of
             Inl e \<Rightarrow> Inl e
           | Inr more_num_images_topics \<Rightarrow> choice more_num_images_topics r))"

text \<open>The loop of \<^verbatim>\<open>get_topic_less_num_images\<close>.\<close>

fun less_loop ::
  "image list pydict \<Rightarrow> string list \<Rightarrow> rat \<Rightarrow> string \<Rightarrow> error + string" where
  "less_loop imgs [] less_len less_num_images_topic = Inr less_num_images_topic"
| "less_loop imgs (topic # rest) less_len less_num_images_topic =
     (case dict_get imgs topic of
        Inl e \<Rightarrow> Inl e
      | Inr l \<Rightarrow>
          (if of_int (int (length l)) \<le> less_len
           then less_loop imgs rest (of_int (int (length l))) topic
           else less_loop imgs rest less_len less_num_images_topic))"

definition get_topic_less_num_images :: "manager \<Rightarrow> error + string" where
  "get_topic_less_num_images s =
     less_loop (images s) (topics s) (max_images_per_hour s) []"

section \<open>File store and session store\<close>

text \<open>
  Each filesystem call may raise for reasons outside the program (permissions,
  a full disk); whether it does is an argument of the model. The per-path locks
  are acquired and released around the call and do not change its result.
\<close>

definition path_exists :: "world \<Rightarrow> string \<Rightarrow> bool" where
  "path_exists w p = (files w p \<noteq> None)"

text \<open>\<^verbatim>\<open>file_read\<close>: the content, or \<^verbatim>\<open>None\<close> when \<^verbatim>\<open>open\<close> or \<^verbatim>\<open>read\<close> raises.\<close>

definition file_read :: "world \<Rightarrow> bool \<Rightarrow> string \<Rightarrow> file_content option" where
  "file_read w raises p = (if raises then None else files w p)"

text \<open>\<^verbatim>\<open>remove_image_file\<close>: \<^verbatim>\<open>True\<close> only when the file existed and was removed.\<close>

definition remove_image_file :: "world \<Rightarrow> bool \<Rightarrow> string \<Rightarrow> world \<times> bool" where
  "remove_image_file w raises p =
     (if path_exists w p
      then (if raises then (w, False) else (w\<lparr>files := (files w)(p := None)\<rparr>, True))
      else (w, False))"

text \<open>
  Writing a file: \<^verbatim>\<open>open(.., "wb")\<close> may raise (the file is untouched), or the
  copy into the opened file may raise after some bytes were written.
\<close>

datatype write_fault = WriteOk | OpenRaises | CopyRaises string

text \<open>\<^verbatim>\<open>save_data_to_file\<close>, with \<^verbatim>\<open>create_file_dir\<close> failing or not.\<close>

definition save_data_to_file ::
  "world \<Rightarrow> bool \<Rightarrow> write_fault \<Rightarrow> string \<Rightarrow> string \<Rightarrow> world \<times> bool" where
  "save_data_to_file w mkdir_raises fault p data =
     (if mkdir_raises then (w, False)
      else (case fault of
              OpenRaises \<Rightarrow> (w, False)
            | CopyRaises part \<Rightarrow> (w\<lparr>files := (files w)(p \<mapsto> Bytes part)\<rparr>, False)
            | WriteOk \<Rightarrow> (w\<lparr>files := (files w)(p \<mapsto> Bytes data)\<rparr>, True)))"

definition pickle_save ::
  "world \<Rightarrow> write_fault \<Rightarrow> string \<Rightarrow> image list pydict \<Rightarrow> world \<times> bool" where
  "pickle_save w fault p data =
     (case fault of
        OpenRaises \<Rightarrow> (w, False)
      | CopyRaises part \<Rightarrow> (w\<lparr>files := (files w)(p \<mapsto> Bytes part)\<rparr>, False)
      | WriteOk \<Rightarrow> (w\<lparr>files := (files w)(p \<mapsto> Pickled data)\<rparr>, True))"

text \<open>
  \<^verbatim>\<open>pickle_restore\<close>: \<^verbatim>\<open>None\<close> when the file cannot be opened or does not
  hold a pickle, otherwise the dictionary stored under \<^verbatim>\<open>"images"\<close>.
\<close>

definition pickle_restore :: "world \<Rightarrow> bool \<Rightarrow> string \<Rightarrow> image list pydict option" where
  "pickle_restore w raises p =
     (if raises then None
      else (case files w p of
              Some (Pickled d) \<Rightarrow> Some d
            | _ \<Rightarrow> None))"

definition save_images_data_session :: "world \<Rightarrow> write_fault \<Rightarrow> manager \<Rightarrow> world \<times> bool" where
  "save_images_data_session w fault s = pickle_save w fault (file_session_path s) (images s)"

text \<open>
  The inner loop of \<^verbatim>\<open>restore_images_data_session\<close> over the images of one
  topic: a lock per path, both counters incremented.
\<close>

fun restore_images_loop :: "string \<Rightarrow> image list \<Rightarrow> manager \<Rightarrow> (error + unit) \<times> manager" where
  "restore_images_loop topic_images [] s = (Inr (), s)"
| "restore_images_loop topic_images (img # rest) s =
     (let s1 = s\<lparr> file_locks := insert (file_path img) (file_locks s),
                  num_images := num_images s + 1 \<rparr>
      in case dict_get (num_images_topic s1) topic_images of
           Inl e \<Rightarrow> (Inl e, s1)
         | Inr n \<Rightarrow>
             restore_images_loop topic_images rest
               (s1\<lparr> num_images_topic := dict_set (num_images_topic s1) topic_images (n + 1) \<rparr>))"

text \<open>The outer loop, over the keys of \<^verbatim>\<open>self.images\<close>.\<close>

fun restore_topics_loop :: "string list \<Rightarrow> manager \<Rightarrow> (error + unit) \<times> manager" where
  "restore_topics_loop [] s = (Inr (), s)"
| "restore_topics_loop (topic_images # rest) s =
     (let s1 = (if topic_images \<notin> set (topics s)
                then s\<lparr> topics := topics s @ [topic_images] \<rparr> else s);
          s2 = s1\<lparr> num_images_topic := dict_set (num_images_topic s1) topic_images 0 \<rparr>
      in case dict_get (images s2) topic_images of
           Inl e \<Rightarrow> (Inl e, s2)
         | Inr l \<Rightarrow>
             (case restore_images_loop topic_images l s2 of
                (Inl e, s3) \<Rightarrow> (Inl e, s3)
              | (Inr u, s3) \<Rightarrow> restore_topics_loop rest s3))"

definition restore_images_data_session ::
  "world \<Rightarrow> bool \<Rightarrow> manager \<Rightarrow> (error + bool) \<times> manager" where
  "restore_images_data_session w raises s =
     (if \<not> path_exists w (file_session_path s) then (Inr False, s)
      else (case pickle_restore w raises (file_session_path s) of
              None \<Rightarrow> (Inr False, s)
            | Some d \<Rightarrow>
                (case restore_topics_loop (map fst d)
                        (s\<lparr> images := d, num_images := 0, num_images_topic := [],
                           topics := [] \<rparr>) of
                   (Inl e, s') \<Rightarrow> (Inl e, s')
                 | (Inr u, s') \<Rightarrow> (Inr True, s'))))"

section \<open>Setup and the image provider\<close>

text \<open>The loop of \<^verbatim>\<open>setup\<close> that gives every topic an empty list.\<close>

fun setup_topics_loop :: "string list \<Rightarrow> manager \<Rightarrow> manager" where
  "setup_topics_loop [] s = s"
| "setup_topics_loop (topic # rest) s =
     setup_topics_loop rest
       (if \<not> dict_has (images s) topic
        then s\<lparr> images := dict_set (images s) topic [],
                num_images_topic := dict_set (num_images_topic s) topic 0 \<rparr>
        else s)"

definition do_setup ::
  "world \<Rightarrow> bool \<Rightarrow> string \<Rightarrow> string list \<Rightarrow> int \<Rightarrow> int \<Rightarrow> int \<Rightarrow> manager
     \<Rightarrow> (error + unit) \<times> manager" where
  "do_setup w raises images_download_dir topic_list image_width image_height max_num_images s =
     (let s1 = s\<lparr> images_dir := images_download_dir, topics := topic_list,
                  img_width := image_width, img_height := image_height \<rparr>;
          s2 = (if max_num_images \<noteq> 0 \<and> of_int max_num_images < max_images_per_hour s1
                then s1\<lparr> max_images_per_hour := of_int max_num_images \<rparr> else s1);
          s3 = setup_topics_loop (topics s2) (s2\<lparr> images := [] \<rparr>);
          s4 = s3\<lparr> file_session_path := images_dir s3 @ ''/'' @ FILE_IMAGES_DATA_SESSION \<rparr>
      in case restore_images_data_session w raises s4 of
           (Inl e, s5) \<Rightarrow> (Inl e, s5)
         | (Inr b, s5) \<Rightarrow> (Inr (), s5\<lparr> setup_done := True \<rparr>))"

text \<open>The dictionary returned by \<^verbatim>\<open>get_random_image\<close>.\<close>

record image_data =
  d_attribution :: string
  d_id :: string
  d_image :: file_content
  d_topic :: string

text \<open>The loop of \<^verbatim>\<open>get_random_image\<close> collecting the topics that have an image.\<close>

fun topics_with_any_image_loop ::
  "image list pydict \<Rightarrow> string list \<Rightarrow> string list \<Rightarrow> error + string list" where
  "topics_with_any_image_loop imgs [] acc = Inr acc"
| "topics_with_any_image_loop imgs (topic # rest) acc =
     (case dict_get imgs topic of
        Inl e \<Rightarrow> Inl e
      | Inr l \<Rightarrow>
          topics_with_any_image_loop imgs rest
            (if length l > 0 then acc @ [topic] else acc))"

text \<open>
  \<^verbatim>\<open>get_random_image\<close>; \<open>r_t\<close> and \<open>r_i\<close> are the two draws of
  \<^verbatim>\<open>choice\<close>. The result is the exception raised, or the value returned.
\<close>

definition get_random_image ::
  "world \<Rightarrow> bool \<Rightarrow> nat \<Rightarrow> nat \<Rightarrow> manager \<Rightarrow> (error + image_data option) \<times> manager" where
  "get_random_image w raises r_t r_i s =
     (if \<not> setup_done s then (Inr None, s)
      else if num_images s = 0 then (Inr None, s)
      else (case topics_with_any_image_loop (images s) (topics s) [] of
              Inl e \<Rightarrow> (Inl e, s)
            | Inr topics_with_any_image \<Rightarrow>
                if length topics_with_any_image = 0 then (Inr None, s)
                else (case choice topics_with_any_image r_t of
                        Inl e \<Rightarrow> (Inl e, s)
                      | Inr random_topic \<Rightarrow>
       (case dict_get (images s) random_topic of
          Inl e \<Rightarrow> (Inl e, s)
        | Inr l \<Rightarrow>
       (case choice l r_i of
          Inl e \<Rightarrow> (Inl e, s)
        | Inr random_image \<Rightarrow>
       (case file_read w raises (file_path random_image) of
          None \<Rightarrow>
            (let s1 = s\<lparr> images := dict_set (images s) random_topic (remove1 random_image l),
                         num_images := num_images s - 1 \<rparr>
             in case dict_get (num_images_topic s1) random_topic of
                  Inl e \<Rightarrow> (Inl e, s1)
                | Inr n \<Rightarrow>
                    (Inr None,
                     s1\<lparr> num_images_topic :=
                           dict_set (num_images_topic s1) random_topic (n - 1) \<rparr>))
        | Some bytes \<Rightarrow>
            (Inr (Some \<lparr> d_attribution = attribution random_image,
                         d_id = img_id random_image,
                         d_image = bytes,
                         d_topic = random_topic \<rparr>), s)))))))"

section \<open>Thread control\<close>

text \<open>
  What creating and starting the thread does in \<^verbatim>\<open>start\<close>: both succeed, the
  constructor raises, or \<^verbatim>\<open>Thread.start\<close> raises after the object was stored in
  \<^verbatim>\<open>self.thread\<close>.
\<close>

datatype start_outcome = Started | CtorRaises | StartRaises

definition start :: "start_outcome \<Rightarrow> manager \<Rightarrow> bool \<times> manager" where
  "start outcome s =
     (if \<not> setup_done s then (False, s)
      else if thread s \<noteq> None then (False, s)
      else (case outcome of
              CtorRaises \<Rightarrow> (False, s)
            | StartRaises \<Rightarrow> (False, s\<lparr> thread := Some NotStarted, th_stop := False \<rparr>)
            | Started \<Rightarrow> (True, s\<lparr> thread := Some (Alive True), th_stop := False \<rparr>)))"

text \<open>
  \<^verbatim>\<open>stop\<close>: the flag is set and a live thread is joined, which ends once its
  loop reads the flag.
\<close>

definition stop :: "manager \<Rightarrow> bool \<times> manager" where
  "stop s =
     (case thread s of
        None \<Rightarrow> (False, s)
      | Some (Alive first_iteration) \<Rightarrow> (True, s\<lparr> th_stop := True, thread := Some Finished \<rparr>)
      | Some t \<Rightarrow> (True, s\<lparr> th_stop := True \<rparr>))"

section \<open>Rotation manager\<close>

definition connect :: "bool \<Rightarrow> manager \<Rightarrow> manager" where
  "connect ok s = (if ok then s\<lparr> api := True, connected := True \<rparr> else s\<lparr> connected := False \<rparr>)"

text \<open>The fields of the API answer that \<^verbatim>\<open>download_image\<close> reads.\<close>

record candidate =
  cand_id :: string
  user_html :: string
  user_name :: string

text \<open>
  What the network does during \<^verbatim>\<open>download_image\<close>: the search raises or
  returns \<^verbatim>\<open>None\<close>; something raises after the search was counted (an empty
  answer, the HTTP request); or the HTTP request answers with a status and a
  body, and the download notification raises or not.
\<close>

datatype net_outcome =
    SearchRaises
  | SearchNone
  | RaisesAfterSearch
  | Fetched candidate int string bool

definition quote :: string where
  "quote = [CHR 0x22]"

definition download_image ::
  "net_outcome \<Rightarrow> string \<Rightarrow> int \<Rightarrow> int \<Rightarrow> manager \<Rightarrow> image option \<times> manager" where
  "download_image outcome topic width height s =
     (if \<not> api s then (None, s)
      else (case outcome of
              SearchRaises \<Rightarrow> (None, s)
            | SearchNone \<Rightarrow> (None, s)
            | RaisesAfterSearch \<Rightarrow>
                (None, s\<lparr> api_requests_counter := api_requests_counter s + 1 \<rparr>)
            | Fetched img_data status body notify_ok \<Rightarrow>
                (let s1 = s\<lparr> api_requests_counter := api_requests_counter s + 1 \<rparr>;
                     photographer = ''<a href='' @ quote @ user_html img_data @ ''?''
                        @ referral s1 @ quote @ ''>'' @ user_name img_data @ ''</a>'';
                     attribution_text = ''Photo by '' @ photographer @ '' on <a href='' @ quote
                        @ unsplash_attribution s1 @ quote @ ''>Unsplash</a>''
                 in if status \<noteq> 200 then (None, s1)
                    else if \<not> notify_ok then (None, s1)
                    else (Some \<lparr> raw = body, attribution = attribution_text,
                                  img_id = cand_id img_data, file_path = [] \<rparr>,
                          s1\<lparr> api_requests_counter := api_requests_counter s1 + 1 \<rparr>))))"

text \<open>Python's \<^verbatim>\<open>str\<close> of an integer, used by the f-string of the file name.\<close>

function str_nat :: "nat \<Rightarrow> string" where
  "str_nat n =
     (if n < 10 then [''0123456789'' ! n]
      else str_nat (n div 10) @ [''0123456789'' ! (n mod 10)])"
  by pat_completeness auto
termination
  by (relation "measure id") auto

declare str_nat.simps [simp del]

definition py_str :: "int \<Rightarrow> string" where
  "py_str i = (if i < 0 then ''-'' @ str_nat (nat (- i)) else str_nat (nat i))"

text \<open>
  Everything one iteration of the loop of \<^verbatim>\<open>manage\<close> takes from outside: the
  clock, the connection attempt, the two random draws of an eviction, and the
  outcomes of the filesystem and network calls.
\<close>

record env =
  now_limit :: rat
  connect_ok :: bool
  r_topic :: nat
  r_image :: nat
  remove_raises :: bool
  net :: net_outcome
  now_download :: rat
  mkdir_raises :: bool
  write_outcome :: write_fault
  session_outcome :: write_fault

text \<open>
  An iteration ends at a \<^verbatim>\<open>continue\<close> or at the end of the body
  (\<open>Next\<close>, with the new value of \<^verbatim>\<open>first_iteration\<close>), or an exception
  leaves \<^verbatim>\<open>manage\<close> and the thread ends (\<open>Died\<close>).
\<close>

datatype cycle_result = Next world manager bool | Died error world manager

text \<open>Lines 322 to 341: download for the chosen topic, store, count, save the session.\<close>

definition download_phase :: "env \<Rightarrow> world \<Rightarrow> manager \<Rightarrow> string \<Rightarrow> cycle_result" where
  "download_phase e w s topic =
     (if topic = [] then Next w s False
      else (case download_image (net e) topic (img_width s) (img_height s) s of
              (None, s1) \<Rightarrow> Next w s1 False
            | (Some img, s1) \<Rightarrow>
       (let s2 = (if first_image_in_this_hour s1
                  then s1\<lparr> first_image_in_this_hour := False,
                           t_first_down_image := now_download e \<rparr>
                  else s1)
        in case dict_get (num_images_topic s2) topic of
             Inl err \<Rightarrow> Died err w s2
           | Inr n \<Rightarrow>
       (let img_file_name = topic @ ''_'' @ py_str n @ ''.jpg'';
            img1 = img\<lparr> file_path := images_dir s2 @ ''/'' @ img_file_name \<rparr>
        in case save_data_to_file w (mkdir_raises e) (write_outcome e)
                  (file_path img1) (raw img1) of
             (w1, False) \<Rightarrow> Next w1 s2 False
           | (w1, True) \<Rightarrow>
       (case dict_get (images s2) topic of
          Inl err \<Rightarrow> Died err w1 s2
        | Inr l \<Rightarrow>
       (let s3 = s2\<lparr> images := dict_set (images s2) topic (l @ [img1]),
                    file_locks := insert (file_path img1) (file_locks s2),
                    num_images := num_images s2 + 1 \<rparr>
        in case dict_get (num_images_topic s3) topic of
             Inl err \<Rightarrow> Died err w1 s3
           | Inr m \<Rightarrow>
               (let s4 = s3\<lparr> num_images_topic := dict_set (num_images_topic s3) topic (m + 1) \<rparr>
                in Next (fst (save_images_data_session w1 (session_outcome e) s4)) s4 False)))))))"

text \<open>Lines 309 to 317: the eviction, then the download for the same topic.\<close>

definition evict_phase :: "env \<Rightarrow> world \<Rightarrow> manager \<Rightarrow> cycle_result" where
  "evict_phase e w s =
     (case get_topic_more_num_images s (r_topic e) of
        Inl err \<Rightarrow> Died err w s
      | Inr topic \<Rightarrow>
     (case dict_get (images s) topic of
        Inl err \<Rightarrow> Died err w s
      | Inr l \<Rightarrow>
     (case choice l (r_image e) of
        Inl err \<Rightarrow> Died err w s
      | Inr img \<Rightarrow>
     (case remove_image_file w (remove_raises e) (file_path img) of
        (w1, False) \<Rightarrow> Next w1 s False
      | (w1, True) \<Rightarrow>
     (let s1 = s\<lparr> images := dict_set (images s) topic (remove1 img l),
                  num_images := num_images s - 1 \<rparr>
      in case dict_get (num_images_topic s1) topic of
           Inl err \<Rightarrow> Died err w1 s1
         | Inr n \<Rightarrow>
             download_phase e w1
               (s1\<lparr> num_images_topic := dict_set (num_images_topic s1) topic (n - 1) \<rparr>)
               topic)))))"

text \<open>One iteration of the \<^verbatim>\<open>while\<close> loop of \<^verbatim>\<open>manage\<close>.\<close>

definition manage_cycle :: "env \<Rightarrow> world \<Rightarrow> manager \<Rightarrow> bool \<Rightarrow> cycle_result" where
  "manage_cycle e w s first_iteration =
     (if api_requests_counter s = max_api_requests_per_hour s
      then Next w
             (if now_limit e - t_first_down_image s > SECONDS_IN_HOUR
              then s\<lparr> api_requests_counter := 0, first_image_in_this_hour := True \<rparr>
              else s)
             first_iteration
      else (let s1 = (if \<not> connected s then connect (connect_ok e) s else s)
            in if \<not> connected s1 then Next w s1 first_iteration
               else if of_int (num_images s1) \<ge> max_images_per_hour s1
               then evict_phase e w s1
               else (case get_topic_less_num_images s1 of
                       Inl err \<Rightarrow> Died err w s1
                     | Inr topic \<Rightarrow> download_phase e w s1 topic)))"

section \<open>Calls on the object, interleaved with the thread\<close>

text \<open>
  The thread of \<^verbatim>\<open>manage\<close> between two calls of the owner: it tests
  \<^verbatim>\<open>th_stop\<close>, then runs one iteration. A thread that was never started or has
  ended does nothing.
\<close>

definition thread_step :: "env \<Rightarrow> world \<Rightarrow> manager \<Rightarrow> world \<times> manager" where
  "thread_step e w s =
     (case thread s of
        Some (Alive first_iteration) \<Rightarrow>
          (if th_stop s then (w, s\<lparr> thread := Some Finished \<rparr>)
           else (case manage_cycle e w s first_iteration of
                   Next w1 s1 fi \<Rightarrow> (w1, s1\<lparr> thread := Some (Alive fi) \<rparr>)
                 | Died err w1 s1 \<Rightarrow> (w1, s1\<lparr> thread := Some Finished \<rparr>)))
      | _ \<Rightarrow> (w, s))"

text \<open>
  The public methods with their arguments and the outcomes of the calls they
  make, one iteration of the thread, and a change of a file made by somebody
  else.
\<close>

datatype op =
    OpSetup bool string "string list" int int int
  | OpRestore bool
  | OpSave write_fault
  | OpGetRandomImage bool nat nat
  | OpStart start_outcome
  | OpStop
  | OpCycle env
  | OpTamper string "file_content option"

fun apply_op :: "op \<Rightarrow> world \<times> manager \<Rightarrow> world \<times> manager" where
  "apply_op (OpSetup raises dir topic_list width height max_num) (w, s) =
     (w, snd (do_setup w raises dir topic_list width height max_num s))"
| "apply_op (OpRestore raises) (w, s) = (w, snd (restore_images_data_session w raises s))"
| "apply_op (OpSave fault) (w, s) = (fst (save_images_data_session w fault s), s)"
| "apply_op (OpGetRandomImage raises r_t r_i) (w, s) =
     (w, snd (get_random_image w raises r_t r_i s))"
| "apply_op (OpStart outcome) (w, s) = (w, snd (start outcome s))"
| "apply_op OpStop (w, s) = (w, snd (stop s))"
| "apply_op (OpCycle e) (w, s) = thread_step e w s"
| "apply_op (OpTamper p c) (w, s) = (w\<lparr> files := (files w)(p := c) \<rparr>, s)"

fun run :: "op list \<Rightarrow> world \<times> manager \<Rightarrow> world \<times> manager" where
  "run [] ws = ws"
| "run (x # xs) ws = run xs (apply_op x ws)"

section \<open>Properties of a state\<close>

text \<open>\<^verbatim>\<open>len(self.images[topic])\<close>, for a topic that is a key.\<close>

definition topic_count :: "manager \<Rightarrow> string \<Rightarrow> int" where
  "topic_count s t = (case map_of (images s) t of None \<Rightarrow> 0 | Some l \<Rightarrow> int (length l))"

text \<open>The number of images of the pool: the sum of the lengths of its lists.\<close>

definition pool_total :: "image list pydict \<Rightarrow> int" where
  "pool_total d = sum_list (map (\<lambda>kv. int (length (snd kv))) d)"

text \<open>Every topic of the list is a key of \<^verbatim>\<open>self.images\<close>.\<close>

definition topics_known :: "manager \<Rightarrow> bool" where
  "topics_known s = (\<forall>t \<in> set (topics s). dict_has (images s) t)"

text \<open>
  The counters agree with the pool: the keys of the pool are the topics, each
  once; \<^verbatim>\<open>num_images\<close> is the size of the pool; \<^verbatim>\<open>num_images_topic\<close>
  has the length of the list of every topic.
\<close>

definition counters_ok :: "manager \<Rightarrow> bool" where
  "counters_ok s =
     (distinct (map fst (images s)) \<and>
      set (map fst (images s)) = set (topics s) \<and>
      num_images s = pool_total (images s) \<and>
      (\<forall>t \<in> set (topics s). map_of (num_images_topic s) t = Some (topic_count s t)))"

text \<open>All the images of the pool, and their paths.\<close>

definition pool_images :: "manager \<Rightarrow> image list" where
  "pool_images s = concat (map snd (images s))"

definition paths_unique :: "manager \<Rightarrow> bool" where
  "paths_unique s = distinct (map file_path (pool_images s))"

section \<open>Example states\<close>

text \<open>
  States used to run the code on concrete data: a storage directory \<^verbatim>\<open>dir\<close>
  whose session file holds the pool \<open>d\<close>, and the manager after
  \<^verbatim>\<open>__init__\<close> and \<^verbatim>\<open>setup\<close> restored that session.
\<close>

definition img_at :: "string \<Rightarrow> image" where
  "img_at p = \<lparr> raw = [], attribution = [], img_id = p, file_path = p \<rparr>"

definition session_world :: "image list pydict \<Rightarrow> world" where
  "session_world d = \<lparr> files = [''dir/session_img_data.pkl'' \<mapsto> Pickled d] \<rparr>"

definition restored_state :: "int \<Rightarrow> int \<Rightarrow> image list pydict \<Rightarrow> manager" where
  "restored_state max_requests max_num_images d =
     snd (do_setup (session_world d) False ''dir'' (map fst d) 320 240 max_num_images
            (init ''app'' max_requests 0))"

text \<open>No topic has more images than the cap \<^verbatim>\<open>max_images_per_hour\<close>.\<close>

definition within_cap :: "manager \<Rightarrow> bool" where
  "within_cap s = (\<forall>t \<in> set (topics s). of_int (topic_count s t) \<le> max_images_per_hour s)"

text \<open>A pool with three images of \<^verbatim>\<open>a\<close>, three of \<^verbatim>\<open>b\<close> and one of \<^verbatim>\<open>c\<close>.\<close>

definition pool_abc :: "image list pydict" where
  "pool_abc =
     [(''a'', [img_at ''dir/a_0.jpg'', img_at ''dir/a_1.jpg'', img_at ''dir/a_2.jpg'']),
      (''b'', [img_at ''dir/b_0.jpg'', img_at ''dir/b_1.jpg'', img_at ''dir/b_2.jpg'']),
      (''c'', [img_at ''dir/c_0.jpg''])]"

text \<open>The list \<^verbatim>\<open>d[k]\<close> of a pool, empty for a key that is missing.\<close>

definition entries :: "image list pydict \<Rightarrow> string \<Rightarrow> image list" where
  "entries d k = (case map_of d k of None \<Rightarrow> [] | Some l \<Rightarrow> l)"

text \<open>
  The state that restoring the session \<open>d\<close> leaves: the pool is \<open>d\<close>, the
  topics are its keys, the counters are recomputed and every path has a lock.
\<close>

definition restored :: "image list pydict \<Rightarrow> manager \<Rightarrow> manager" where
  "restored d s =
     s\<lparr> images := d, num_images := pool_total d,
        num_images_topic := map (\<lambda>kv. (fst kv, int (length (snd kv)))) d,
        topics := map fst d,
        file_locks := file_locks s \<union> file_path ` set (concat (map snd d)) \<rparr>"

definition state_abc :: manager where
  "state_abc = restored_state 50 0 pool_abc"

text \<open>
  A pickled dictionary has each key once: the association list stored in a
  session file is the image of a Python \<^verbatim>\<open>dict\<close>.
\<close>

definition pickles_are_dicts :: "world \<Rightarrow> bool" where
  "pickles_are_dicts w = (\<forall>p d. files w p = Some (Pickled d) \<longrightarrow> distinct (map fst d))"

text \<open>The manager of another run of the program on the same directory, before \<^verbatim>\<open>setup\<close> restored anything.\<close>

definition restarted :: manager where
  "restarted = (init ''app'' 50 0)\<lparr> file_session_path := ''dir/session_img_data.pkl'' \<rparr>"

text \<open>The list \<^verbatim>\<open>topics_with_any_image\<close> that \<^verbatim>\<open>get_random_image\<close> draws from.\<close>

definition topics_with_any_image :: "manager \<Rightarrow> string list" where
  "topics_with_any_image s = filter (\<lambda>t. entries (images s) t \<noteq> []) (topics s)"

text \<open>The state after the image \<open>img\<close> of the topic \<open>t\<close> left the pool.\<close>

definition without_image :: "string \<Rightarrow> image \<Rightarrow> manager \<Rightarrow> manager" where
  "without_image t img s =
     s\<lparr> images := dict_set (images s) t (remove1 img (entries (images s) t)),
        num_images := num_images s - 1,
        num_images_topic := dict_set (num_images_topic s) t (topic_count s t - 1) \<rparr>"

text \<open>The state after lines 294 to 302 of \<^verbatim>\<open>manage\<close>: connected already, or after one call of \<^verbatim>\<open>connect\<close>.\<close>

definition after_connect :: "env \<Rightarrow> manager \<Rightarrow> manager" where
  "after_connect e s = (if \<not> connected s then connect (connect_ok e) s else s)"

text \<open>
  A pool with two images of the only topic \<^verbatim>\<open>x\<close>, and the manager set up
  with that session and the cap \<^verbatim>\<open>max_num_images = 2\<close>.
\<close>

definition pool_xx :: "image list pydict" where
  "pool_xx = [(''x'', [img_at ''dir/x_0.jpg'', img_at ''dir/x_1.jpg''])]"

definition state_xx :: manager where
  "state_xx = restored_state 50 2 pool_xx"

text \<open>The storage that holds the session file of that pool and its two image files.\<close>

definition world_xx :: world where
  "world_xx = \<lparr> files = [''dir/session_img_data.pkl'' \<mapsto> Pickled pool_xx,
                           ''dir/x_0.jpg'' \<mapsto> Bytes ''old0'',
                           ''dir/x_1.jpg'' \<mapsto> Bytes ''old1''] \<rparr>"

text \<open>
  An iteration in which everything outside the program works: the connection,
  the removal, the search, the HTTP request with status 200, the notification
  and both writes; both random draws are 0.
\<close>

definition env_ok :: env where
  "env_ok = \<lparr> now_limit = 0, connect_ok = True, r_topic = 0, r_image = 0,
              remove_raises = False,
              net = Fetched \<lparr> cand_id = ''p1'', user_html = ''https://unsplash.com/@u'',
                               user_name = ''U'' \<rparr> 200 ''new'' True,
              now_download = 0, mkdir_raises = False,
              write_outcome = WriteOk, session_outcome = WriteOk \<rparr>"

text \<open>An iteration in which the search is answered and the HTTP request then raises.\<close>

definition env_fetch_raises :: env where
  "env_fetch_raises = env_ok\<lparr> net := RaisesAfterSearch \<rparr>"

text \<open>
  A new manager with the request limit \<open>max_requests\<close> on an empty storage:
  \<^verbatim>\<open>setup\<close> with the directory \<^verbatim>\<open>dir\<close>, the single topic \<^verbatim>\<open>x\<close> and
  \<^verbatim>\<open>max_num_images = cap\<close>, then \<^verbatim>\<open>start\<close>, then the iterations
  \<open>cycles\<close> of the thread.
\<close>

definition run_fresh :: "int \<Rightarrow> int \<Rightarrow> env list \<Rightarrow> world \<times> manager" where
  "run_fresh max_requests cap cycles =
     run ([OpSetup False ''dir'' [''x''] 320 240 cap, OpStart Started] @ map OpCycle cycles)
       (\<lparr> files = Map.empty \<rparr>, init ''app'' max_requests 0)"

section \<open>Dictionary lookups\<close>

lemma dict_get_has: "dict_has d k \<Longrightarrow> \<exists>v. map_of d k = Some v \<and> dict_get d k = Inr v"
  by (auto simp: dict_has_def dict_get_def)

lemma Min_insert_absorb:
  fixes L :: "'a::linorder"
  assumes "finite A" "A \<noteq> {}" "Min A \<le> L"
  shows "Min (insert L A) = Min A"
  using assms by (metis Min_insert min.absorb2)

lemma less_loop_char:
  "\<forall>t \<in> set ts. dict_has (images s) t \<Longrightarrow>
   less_loop (images s) ts L cur =
     Inr (last (cur # filter (\<lambda>t. (of_int (topic_count s t) :: rat) =
               Min (insert L ((\<lambda>t. of_int (topic_count s t)) ` set ts))) ts))"
proof (induction ts arbitrary: L cur)
  case Nil
  show ?case by simp
next
  case (Cons t rest)
  let ?c = "\<lambda>t. (of_int (topic_count s t) :: rat)"
  let ?R = "?c ` set rest"
  from Cons.prems obtain l where l: "map_of (images s) t = Some l" "dict_get (images s) t = Inr l"
    using dict_get_has by fastforce
  have ct: "?c t = of_nat (length l)" using l by (simp add: topic_count_def)
  have rest: "\<forall>t \<in> set rest. dict_has (images s) t" using Cons.prems by simp
  have img: "?c ` set (t # rest) = insert (?c t) ?R" by simp
  show ?case
  proof (cases "?c t \<le> L")
    case True
    let ?M = "Min (insert (?c t) ?R)"
    have "?M \<le> ?c t" by simp
    then have "?M \<le> L" using True by linarith
    then have "Min (insert L (insert (?c t) ?R)) = ?M"
      by (intro Min_insert_absorb) auto
    then have M: "Min (insert L (?c ` set (t # rest))) = ?M" by (simp only: img)
    have step: "less_loop (images s) (t # rest) L cur = less_loop (images s) rest (?c t) t"
      using True by (simp add: l(2) ct)
    have ih: "less_loop (images s) rest (?c t) t =
       Inr (last (t # filter (\<lambda>u. ?c u = ?M) rest))"
      by (rule Cons.IH[OF rest])
    have "last (cur # filter (\<lambda>u. ?c u = ?M) (t # rest)) = last (t # filter (\<lambda>u. ?c u = ?M) rest)"
    proof (cases "?c t = ?M")
      case True then show ?thesis by simp
    next
      case False
      have "?M \<in> insert (?c t) ?R" by (rule Min_in) auto
      with False have "?M \<in> ?R" by auto
      then obtain u where "u \<in> set rest" "?c u = ?M" by auto
      then have "filter (\<lambda>u. ?c u = ?M) rest \<noteq> []"
        unfolding filter_empty_conv by blast
      then show ?thesis using False by simp
    qed
    then show ?thesis by (simp only: step ih M)
  next
    case False
    then have gt: "L < ?c t" by simp
    let ?M = "Min (insert L ?R)"
    have le: "?M \<le> L" by simp
    then have "?M \<le> ?c t" using gt by linarith
    then have "Min (insert (?c t) (insert L ?R)) = ?M"
      by (intro Min_insert_absorb) auto
    then have M: "Min (insert L (?c ` set (t # rest))) = ?M"
      by (simp only: img insert_commute)
    have ne: "?c t \<noteq> ?M" using gt le by linarith
    have step: "less_loop (images s) (t # rest) L cur = less_loop (images s) rest L cur"
      using False by (simp add: l(2) ct)
    have ih: "less_loop (images s) rest L cur = Inr (last (cur # filter (\<lambda>u. ?c u = ?M) rest))"
      by (rule Cons.IH[OF rest])
    have "filter (\<lambda>u. ?c u = ?M) (t # rest) = filter (\<lambda>u. ?c u = ?M) rest"
      using ne by simp
    then show ?thesis by (simp only: step ih M)
  qed
qed

lemmas eval_defs = restored_state_def session_world_def do_setup_def init_def
  restore_images_data_session_def path_exists_def pickle_restore_def
  FILE_IMAGES_DATA_SESSION_def dict_get_def dict_set_def dict_has_def img_at_def
  REQUESTS_PER_IMAGE_DOWNLOAD_def Let_def

lemma get_topic_less_last_min:
  assumes ne: "topics s \<noteq> []"
    and known: "topics_known s"
    and cap: "within_cap s"
  shows "get_topic_less_num_images s =
     Inr (last (filter (\<lambda>t. topic_count s t = Min (topic_count s ` set (topics s))) (topics s)))"
proof -
  let ?c = "\<lambda>t. (of_int (topic_count s t) :: rat)"
  let ?C = "topic_count s ` set (topics s)"
  let ?m = "Min ?C"
  have known': "\<forall>t \<in> set (topics s). dict_has (images s) t"
    using known by (simp add: topics_known_def)
  have fin: "finite ?C" "?C \<noteq> {}" using ne by auto
  have m_in: "?m \<in> ?C" using fin by (rule Min_in)
  have img: "?c ` set (topics s) = of_int ` ?C" by (simp add: image_image)
  have "Min (of_int ` ?C) = (of_int ?m :: rat)"
    using fin by (intro Min_eqI) (auto simp: Min_le)
  then have Mc: "Min (?c ` set (topics s)) = of_int ?m" by (simp only: img)
  have "of_int ?m \<le> max_images_per_hour s" using m_in cap by (auto simp: within_cap_def)
  then have "Min (?c ` set (topics s)) \<le> max_images_per_hour s" by (simp only: Mc)
  then have "Min (insert (max_images_per_hour s) (?c ` set (topics s))) = Min (?c ` set (topics s))"
    using ne by (intro Min_insert_absorb) auto
  then have M: "Min (insert (max_images_per_hour s) (?c ` set (topics s))) = of_int ?m"
    by (simp only: Mc)
  have eq: "(\<lambda>t. ?c t = of_int ?m) = (\<lambda>t. topic_count s t = ?m)" by (rule ext) simp
  obtain t where "t \<in> set (topics s)" "topic_count s t = ?m" using m_in by auto
  then have fne: "filter (\<lambda>t. topic_count s t = ?m) (topics s) \<noteq> []"
    unfolding filter_empty_conv by blast
  have "get_topic_less_num_images s =
      Inr (last ([] # filter (\<lambda>t. ?c t = of_int ?m) (topics s)))"
    unfolding get_topic_less_num_images_def less_loop_char[OF known'] M ..
  then have "get_topic_less_num_images s =
      Inr (last ([] # filter (\<lambda>t. topic_count s t = ?m) (topics s)))"
    by (simp only: eq)
  then show ?thesis using fne by simp
qed

section \<open>The topic with the fewest images\<close>

text \<open>
  Claim C4. \<^verbatim>\<open>get_topic_less_num_images\<close> returns the empty string when the
  list of topics is empty. When the list is not empty, every topic has a list in
  the pool and no topic has more images than the cap, it returns the last topic,
  in the order of the list, whose number of images is the minimum over all
  topics. For a pool with no image of \<^verbatim>\<open>a\<close> and two images of \<^verbatim>\<open>b\<close>
  it returns \<^verbatim>\<open>a\<close>.
\<close>

theorem fewest_images_is_last_minimum:
  "(topics s = [] \<longrightarrow> get_topic_less_num_images s = Inr []) \<and>
   (topics s \<noteq> [] \<and> topics_known s \<and> within_cap s \<longrightarrow>
      get_topic_less_num_images s =
        Inr (last (filter (\<lambda>t. topic_count s t = Min (topic_count s ` set (topics s)))
                    (topics s)))) \<and>
   get_topic_less_num_images
     (restored_state 50 0
        [(''a'', []), (''b'', [img_at ''dir/b_0.jpg'', img_at ''dir/b_1.jpg''])]) = Inr ''a''"
proof (intro conjI impI)
  assume "topics s = []"
  then show "get_topic_less_num_images s = Inr []"
    by (simp add: get_topic_less_num_images_def)
next
  assume "topics s \<noteq> [] \<and> topics_known s \<and> within_cap s"
  then show "get_topic_less_num_images s =
        Inr (last (filter (\<lambda>t. topic_count s t = Min (topic_count s ` set (topics s)))
                    (topics s)))"
    by (intro get_topic_less_last_min) auto
next
  show "get_topic_less_num_images
     (restored_state 50 0
        [(''a'', []), (''b'', [img_at ''dir/b_0.jpg'', img_at ''dir/b_1.jpg''])]) = Inr ''a''"
    by (simp add: eval_defs get_topic_less_num_images_def)
qed

text \<open>
  The theorem at a pool with one image of \<^verbatim>\<open>x\<close> and none of \<^verbatim>\<open>y\<close> and
  \<^verbatim>\<open>z\<close>: the two last topics tie at the minimum and the last one is returned.
\<close>

theorem fewest_images_is_last_minimum_witness:
  "topics (restored_state 50 0 [(''x'', [img_at ''dir/x_0.jpg'']), (''y'', []), (''z'', [])]) \<noteq> [] \<and>
   topics_known (restored_state 50 0 [(''x'', [img_at ''dir/x_0.jpg'']), (''y'', []), (''z'', [])]) \<and>
   within_cap (restored_state 50 0 [(''x'', [img_at ''dir/x_0.jpg'']), (''y'', []), (''z'', [])]) \<and>
   get_topic_less_num_images
     (restored_state 50 0 [(''x'', [img_at ''dir/x_0.jpg'']), (''y'', []), (''z'', [])]) = Inr ''z''"
proof -
  let ?s = "restored_state 50 0 [(''x'', [img_at ''dir/x_0.jpg'']), (''y'', []), (''z'', [])]"
  have st: "topics ?s = [''x'', ''y'', ''z'']"
    "images ?s = [(''x'', [img_at ''dir/x_0.jpg'']), (''y'', []), (''z'', [])]"
    "max_images_per_hour ?s = 25"
    by (simp_all add: eval_defs)
  have h1: "topics ?s \<noteq> []" by (simp add: st)
  have h2: "topics_known ?s" by (simp add: topics_known_def dict_has_def st)
  have h3: "within_cap ?s" by (simp add: within_cap_def topic_count_def st)
  have l: "last (filter (\<lambda>t. topic_count ?s t = Min (topic_count ?s ` set (topics ?s))) (topics ?s))
      = ''z''"
    by (simp add: topic_count_def st)
  have "get_topic_less_num_images ?s =
      Inr (last (filter (\<lambda>t. topic_count ?s t = Min (topic_count ?s ` set (topics ?s)))
                  (topics ?s)))"
    using fewest_images_is_last_minimum [of ?s] h1 h2 h3 by blast
  then have "get_topic_less_num_images ?s = Inr ''z''" by (simp only: l)
  then show ?thesis using h1 h2 h3 by blast
qed

section \<open>Restoring a session\<close>

lemma update_fresh: "k \<notin> fst ` set al \<Longrightarrow> AList.update k v al = al @ [(k, v)]"
  by (induction al) auto

lemma update_last_entry:
  "k \<notin> fst ` set al \<Longrightarrow> AList.update k v (al @ [(k, v0)]) = al @ [(k, v)]"
  by (induction al) auto

lemma map_of_last_entry: "k \<notin> fst ` set al \<Longrightarrow> map_of (al @ [(k, n)]) k = Some n"
  by (induction al) auto

lemma restore_images_loop_char:
  "t \<notin> fst ` set al \<Longrightarrow> num_images_topic s = al @ [(t, n)] \<Longrightarrow>
   restore_images_loop t l s =
     (Inr (), s\<lparr> file_locks := file_locks s \<union> file_path ` set l,
                 num_images := num_images s + int (length l),
                 num_images_topic := al @ [(t, n + int (length l))] \<rparr>)"
proof (induction l arbitrary: s n)
  case Nil
  then show ?case by simp
next
  case (Cons img rest)
  let ?s1 = "s\<lparr> file_locks := insert (file_path img) (file_locks s),
                 num_images := num_images s + 1 \<rparr>"
  let ?s2 = "?s1\<lparr> num_images_topic := al @ [(t, n + 1)] \<rparr>"
  have "map_of (num_images_topic s) t = Some n"
    using Cons.prems map_of_last_entry [of t al n] by simp
  then have get: "dict_get (num_images_topic s) t = Inr n"
    by (simp add: dict_get_def)
  have set: "dict_set (num_images_topic s) t (n + 1) = al @ [(t, n + 1)]"
    using Cons.prems by (simp add: dict_set_def update_last_entry)
  have step: "restore_images_loop t (img # rest) s = restore_images_loop t rest ?s2"
    by (simp add: get set Let_def)
  have ih: "restore_images_loop t rest ?s2 =
     (Inr (), ?s2\<lparr> file_locks := file_locks ?s2 \<union> file_path ` set rest,
                 num_images := num_images ?s2 + int (length rest),
                 num_images_topic := al @ [(t, n + 1 + int (length rest))] \<rparr>)"
    by (rule Cons.IH) (use Cons.prems in simp_all)
  show ?case unfolding step ih by (simp add: add.assoc)
qed

lemma restore_topics_loop_char:
  assumes "distinct ks"
    and "set ks \<inter> set (topics s) = {}"
    and "set ks \<inter> fst ` set (num_images_topic s) = {}"
    and "\<forall>k \<in> set ks. dict_has (images s) k"
  shows "restore_topics_loop ks s =
     (Inr (), s\<lparr> topics := topics s @ ks,
                 num_images_topic := num_images_topic s @
                    map (\<lambda>k. (k, int (length (entries (images s) k)))) ks,
                 file_locks := file_locks s \<union>
                    file_path ` set (concat (map (entries (images s)) ks)),
                 num_images := num_images s +
                    sum_list (map (\<lambda>k. int (length (entries (images s) k))) ks) \<rparr>)"
  using assms
proof (induction ks arbitrary: s)
  case Nil
  show ?case by simp
next
  case (Cons k rest)
  let ?l = "entries (images s) k"
  let ?s2 = "s\<lparr> topics := topics s @ [k],
                 num_images_topic := num_images_topic s @ [(k, 0)] \<rparr>"
  let ?s3 = "?s2\<lparr> file_locks := file_locks ?s2 \<union> file_path ` set ?l,
                   num_images := num_images ?s2 + int (length ?l),
                   num_images_topic := num_images_topic s @ [(k, 0 + int (length ?l))] \<rparr>"
  have fresh_t: "k \<notin> set (topics s)" and fresh_n: "k \<notin> fst ` set (num_images_topic s)"
    using Cons.prems by auto
  have "dict_has (images s) k" using Cons.prems by simp
  then have get: "dict_get (images s) k = Inr ?l"
    by (auto simp: dict_has_def dict_get_def entries_def)
  have set0: "dict_set (num_images_topic s) k 0 = num_images_topic s @ [(k, 0)]"
    using fresh_n by (simp add: dict_set_def update_fresh)
  have inner: "restore_images_loop k ?l ?s2 = (Inr (), ?s3)"
    by (rule restore_images_loop_char [OF fresh_n]) simp
  have step: "restore_topics_loop (k # rest) s = restore_topics_loop rest ?s3"
    using fresh_t by (simp add: get set0 inner Let_def del: restore_images_loop.simps)
  have ih: "restore_topics_loop rest ?s3 =
     (Inr (), ?s3\<lparr> topics := topics ?s3 @ rest,
                 num_images_topic := num_images_topic ?s3 @
                    map (\<lambda>k. (k, int (length (entries (images ?s3) k)))) rest,
                 file_locks := file_locks ?s3 \<union>
                    file_path ` set (concat (map (entries (images ?s3)) rest)),
                 num_images := num_images ?s3 +
                    sum_list (map (\<lambda>k. int (length (entries (images ?s3) k))) rest) \<rparr>)"
    by (rule Cons.IH) (use Cons.prems in auto)
  show ?case unfolding step ih by (simp add: Un_assoc image_Un)
qed

lemma entries_of_key:
  "distinct (map fst d) \<Longrightarrow> kv \<in> set d \<Longrightarrow> entries d (fst kv) = snd kv"
proof -
  assume "distinct (map fst d)" and "kv \<in> set d"
  then have "map_of d (fst kv) = Some (snd kv)"
    by (intro map_of_is_SomeI) simp_all
  then show ?thesis by (simp add: entries_def)
qed

lemma restore_topics_of_session:
  assumes dist: "distinct (map fst d)"
  shows "restore_topics_loop (map fst d)
           (s\<lparr> images := d, num_images := 0, num_images_topic := [], topics := [] \<rparr>) =
         (Inr (), restored d s)"
proof -
  let ?s0 = "s\<lparr> images := d, num_images := 0, num_images_topic := [], topics := [] \<rparr>"
  have known: "\<forall>k \<in> set (map fst d). dict_has (images ?s0) k"
    by (auto simp: dict_has_def map_of_eq_None_iff)
  have pt: "\<And>kv. kv \<in> set d \<Longrightarrow> entries d (fst kv) = snd kv"
    using dist by (rule entries_of_key)
  have "restore_topics_loop (map fst d) ?s0 =
     (Inr (), ?s0\<lparr> topics := topics ?s0 @ map fst d,
                 num_images_topic := num_images_topic ?s0 @
                    map (\<lambda>k. (k, int (length (entries (images ?s0) k)))) (map fst d),
                 file_locks := file_locks ?s0 \<union>
                    file_path ` set (concat (map (entries (images ?s0)) (map fst d))),
                 num_images := num_images ?s0 +
                    sum_list (map (\<lambda>k. int (length (entries (images ?s0) k))) (map fst d)) \<rparr>)"
    by (rule restore_topics_loop_char) (use dist known in simp_all)
  also have "\<dots> = (Inr (), restored d s)"
    using pt by (simp add: restored_def comp_def pool_total_def cong: map_cong)
  finally show ?thesis .
qed

lemma restore_session_char:
  assumes "files w (file_session_path s) = Some (Pickled d)" and "distinct (map fst d)"
  shows "restore_images_data_session w False s = (Inr True, restored d s)"
  using assms
  by (simp add: restore_images_data_session_def path_exists_def pickle_restore_def
      restore_topics_of_session)

lemma restore_session_absent:
  assumes "raises \<or> (\<forall>d. files w (file_session_path s) \<noteq> Some (Pickled d))"
  shows "restore_images_data_session w raises s = (Inr False, s)"
  using assms
  by (auto simp: restore_images_data_session_def path_exists_def pickle_restore_def
      split: option.splits file_content.splits)

lemma setup_topics_loop_frame:
  "setup_topics_loop ts s =
     s\<lparr> images := images (setup_topics_loop ts s),
        num_images_topic := num_images_topic (setup_topics_loop ts s) \<rparr>"
proof (induction ts arbitrary: s)
  case Nil
  show ?case by simp
next
  case (Cons t rest)
  show ?case
  proof (cases "dict_has (images s) t")
    case True
    then show ?thesis using Cons.IH [of s] by simp
  next
    case False
    let ?s1 = "s\<lparr> images := dict_set (images s) t [],
                   num_images_topic := dict_set (num_images_topic s) t 0 \<rparr>"
    have "setup_topics_loop (t # rest) s = setup_topics_loop rest ?s1" using False by simp
    moreover have "setup_topics_loop rest ?s1 =
        ?s1\<lparr> images := images (setup_topics_loop rest ?s1),
              num_images_topic := num_images_topic (setup_topics_loop rest ?s1) \<rparr>"
      by (rule Cons.IH)
    ultimately show ?thesis by simp
  qed
qed

lemma do_setup_restores:
  assumes "files w (dir @ ''/'' @ FILE_IMAGES_DATA_SESSION) = Some (Pickled d)"
    and "distinct (map fst d)"
  shows "do_setup w False dir ts width height max_num s =
     (Inr (),
      s\<lparr> images_dir := dir, img_width := width, img_height := height,
         max_images_per_hour :=
           (if max_num \<noteq> 0 \<and> of_int max_num < max_images_per_hour s
            then of_int max_num else max_images_per_hour s),
         file_session_path := dir @ ''/'' @ FILE_IMAGES_DATA_SESSION,
         images := d, num_images := pool_total d,
         num_images_topic := map (\<lambda>kv. (fst kv, int (length (snd kv)))) d,
         topics := map fst d,
         file_locks := file_locks s \<union> file_path ` set (concat (map snd d)),
         setup_done := True \<rparr>)"
proof -
  define cap where "cap = (if max_num \<noteq> 0 \<and> of_int max_num < max_images_per_hour s
            then of_int max_num else max_images_per_hour s)"
  let ?s1 = "s\<lparr> images_dir := dir, topics := ts, img_width := width, img_height := height \<rparr>"
  let ?s2 = "?s1\<lparr> max_images_per_hour := cap \<rparr>"
  have s2: "(if max_num \<noteq> 0 \<and> of_int max_num < max_images_per_hour ?s1
             then ?s1\<lparr> max_images_per_hour := of_int max_num \<rparr> else ?s1) = ?s2"
    by (simp add: cap_def)
  define I where "I = images (setup_topics_loop ts (?s2\<lparr> images := [] \<rparr>))"
  define N where "N = num_images_topic (setup_topics_loop ts (?s2\<lparr> images := [] \<rparr>))"
  have s3: "setup_topics_loop ts (?s2\<lparr> images := [] \<rparr>) =
      ?s2\<lparr> images := I, num_images_topic := N \<rparr>"
    using setup_topics_loop_frame [of ts "?s2\<lparr> images := [] \<rparr>"]
    by (simp add: I_def N_def)
  let ?s4 = "?s2\<lparr> images := I, num_images_topic := N,
                  file_session_path := dir @ ''/'' @ FILE_IMAGES_DATA_SESSION \<rparr>"
  have r: "restore_images_data_session w False ?s4 = (Inr True, restored d ?s4)"
    by (rule restore_session_char) (use assms in simp_all)
  have "do_setup w False dir ts width height max_num s =
      (Inr (), (restored d ?s4)\<lparr> setup_done := True \<rparr>)"
    unfolding do_setup_def Let_def s2 using r by (simp add: s3)
  then show ?thesis by (simp add: restored_def cap_def)
qed

lemma restored_state_eq:
  assumes "distinct (map fst d)"
  shows "restored_state max_requests max_num d =
     (init ''app'' max_requests 0)
       \<lparr> images_dir := ''dir'', img_width := 320, img_height := 240,
         max_images_per_hour :=
           (if max_num \<noteq> 0 \<and> (of_int max_num :: rat) < of_int max_requests / 2
            then of_int max_num else of_int max_requests / 2),
         file_session_path := ''dir/session_img_data.pkl'',
         images := d, num_images := pool_total d,
         num_images_topic := map (\<lambda>kv. (fst kv, int (length (snd kv)))) d,
         topics := map fst d,
         file_locks := file_path ` set (concat (map snd d)),
         setup_done := True \<rparr>"
proof -
  have f: "files (session_world d) (''dir'' @ ''/'' @ FILE_IMAGES_DATA_SESSION) = Some (Pickled d)"
    by (simp add: session_world_def FILE_IMAGES_DATA_SESSION_def)
  show ?thesis
    unfolding restored_state_def do_setup_restores [OF f assms]
    by (simp add: init_def REQUESTS_PER_IMAGE_DOWNLOAD_def FILE_IMAGES_DATA_SESSION_def)
qed

section \<open>The topic with the most images\<close>

lemma topic_count_nonneg: "0 \<le> topic_count s t"
  by (simp add: topic_count_def split: option.splits)

lemma more_len_loop_char:
  "\<forall>t \<in> set ts. dict_has (images s) t \<Longrightarrow>
   more_len_loop (images s) ts m0 = Inr (Max (insert m0 (topic_count s ` set ts)))"
proof (induction ts arbitrary: m0)
  case Nil
  show ?case by simp
next
  case (Cons t rest)
  from Cons.prems obtain l where l: "map_of (images s) t = Some l" "dict_get (images s) t = Inr l"
    using dict_get_has by fastforce
  have ct: "topic_count s t = int (length l)" using l by (simp add: topic_count_def)
  have rest: "\<forall>t \<in> set rest. dict_has (images s) t" using Cons.prems by simp
  have step: "more_len_loop (images s) (t # rest) m0 =
      more_len_loop (images s) rest (max m0 (topic_count s t))"
    by (simp add: l(2) ct max_def)
  have "Max (insert (max m0 (topic_count s t)) (topic_count s ` set rest)) =
        Max (insert m0 (topic_count s ` set (t # rest)))"
    by (cases "rest = []") (simp_all add: max.assoc)
  then show ?case by (simp only: step Cons.IH[OF rest])
qed

lemma more_topics_loop_char:
  "\<forall>t \<in> set ts. dict_has (images s) t \<Longrightarrow>
   more_topics_loop (images s) ts m acc = Inr (acc @ filter (\<lambda>t. topic_count s t = m) ts)"
proof (induction ts arbitrary: acc)
  case Nil
  show ?case by simp
next
  case (Cons t rest)
  from Cons.prems obtain l where l: "map_of (images s) t = Some l" "dict_get (images s) t = Inr l"
    using dict_get_has by fastforce
  have ct: "topic_count s t = int (length l)" using l by (simp add: topic_count_def)
  have rest: "\<forall>t \<in> set rest. dict_has (images s) t" using Cons.prems by simp
  show ?case by (simp add: l(2) ct [symmetric] Cons.IH[OF rest])
qed

lemma choice_member: "xs \<noteq> [] \<Longrightarrow> \<exists>x \<in> set xs. choice xs r = Inr x"
  by (simp add: choice_def)

lemma choice_reaches: "x \<in> set xs \<Longrightarrow> \<exists>r. choice xs r = Inr x"
proof -
  assume "x \<in> set xs"
  then obtain i where i: "i < length xs" "xs ! i = x" by (auto simp: in_set_conv_nth)
  then have "choice xs i = Inr x" by (auto simp: choice_def)
  then show ?thesis ..
qed

lemma get_topic_more_char:
  assumes known: "topics_known s" and ne: "topics s \<noteq> []"
  shows "get_topic_more_num_images s r =
     choice (filter (\<lambda>t. topic_count s t = Max (topic_count s ` set (topics s))) (topics s)) r"
proof -
  let ?C = "topic_count s ` set (topics s)"
  have known': "\<forall>t \<in> set (topics s). dict_has (images s) t"
    using known by (simp add: topics_known_def)
  have fin: "finite ?C" "?C \<noteq> {}" using ne by auto
  have "0 \<le> Max ?C"
  proof -
    obtain t where "t \<in> set (topics s)" using ne by (cases "topics s") auto
    then have "topic_count s t \<le> Max ?C" by simp
    then show ?thesis using topic_count_nonneg [of s t] by linarith
  qed
  then have M: "Max (insert 0 ?C) = Max ?C" using fin by (simp add: max_def)
  show ?thesis
    by (simp add: get_topic_more_num_images_def more_len_loop_char[OF known'] M
        more_topics_loop_char[OF known'])
qed

lemma state_abc_fields:
  "topics state_abc = map fst pool_abc"
  "images state_abc = pool_abc"
  "num_images state_abc = pool_total pool_abc"
  "num_images_topic state_abc = map (\<lambda>kv. (fst kv, int (length (snd kv)))) pool_abc"
  "max_images_per_hour state_abc = 25"
  "setup_done state_abc"
proof -
  have "distinct (map fst pool_abc)" by (simp add: pool_abc_def)
  then have eq: "state_abc = (init ''app'' 50 0)
       \<lparr> images_dir := ''dir'', img_width := 320, img_height := 240,
         max_images_per_hour :=
           (if (0::int) \<noteq> 0 \<and> (of_int 0 :: rat) < of_int 50 / 2
            then of_int 0 else of_int 50 / 2),
         file_session_path := ''dir/session_img_data.pkl'',
         images := pool_abc, num_images := pool_total pool_abc,
         num_images_topic := map (\<lambda>kv. (fst kv, int (length (snd kv)))) pool_abc,
         topics := map fst pool_abc,
         file_locks := file_path ` set (concat (map snd pool_abc)),
         setup_done := True \<rparr>"
    unfolding state_abc_def by (rule restored_state_eq)
  show "topics state_abc = map fst pool_abc"
    "images state_abc = pool_abc"
    "num_images state_abc = pool_total pool_abc"
    "num_images_topic state_abc = map (\<lambda>kv. (fst kv, int (length (snd kv)))) pool_abc"
    "max_images_per_hour state_abc = 25"
    "setup_done state_abc"
    by (simp_all add: eq)
qed

lemma more_returns_max:
  assumes ne: "topics s \<noteq> []" and known: "topics_known s"
  shows "\<exists>t. get_topic_more_num_images s r = Inr t \<and> t \<in> set (topics s) \<and>
           topic_count s t = Max (topic_count s ` set (topics s))"
proof -
  define m where "m = Max (topic_count s ` set (topics s))"
  have ch: "get_topic_more_num_images s r = choice (filter (\<lambda>t. topic_count s t = m) (topics s)) r"
    unfolding m_def by (rule get_topic_more_char [OF known ne])
  have "m \<in> topic_count s ` set (topics s)"
    unfolding m_def using ne by (intro Max_in) auto
  then obtain u where "u \<in> set (topics s)" "topic_count s u = m" by auto
  then have "filter (\<lambda>t. topic_count s t = m) (topics s) \<noteq> []"
    unfolding filter_empty_conv by blast
  then have "\<exists>x \<in> set (filter (\<lambda>t. topic_count s t = m) (topics s)).
      choice (filter (\<lambda>t. topic_count s t = m) (topics s)) r = Inr x"
    by (rule choice_member)
  then obtain x where x: "x \<in> set (filter (\<lambda>t. topic_count s t = m) (topics s))"
      "choice (filter (\<lambda>t. topic_count s t = m) (topics s)) r = Inr x" ..
  from x(1) have "x \<in> set (topics s)" "topic_count s x = m" by simp_all
  then show ?thesis using x(2) unfolding ch m_def by blast
qed

lemma more_reaches_every_max:
  assumes known: "topics_known s" and mem: "t' \<in> set (topics s)"
    and mx: "topic_count s t' = Max (topic_count s ` set (topics s))"
  shows "\<exists>r'. get_topic_more_num_images s r' = Inr t'"
proof -
  define m where "m = Max (topic_count s ` set (topics s))"
  have P: "topic_count s t' = m" using mx unfolding m_def .
  have ne: "topics s \<noteq> []" using mem by auto
  have "t' \<in> set (filter (\<lambda>t. topic_count s t = m) (topics s))" using mem P by simp
  then have "\<exists>r'. choice (filter (\<lambda>t. topic_count s t = m) (topics s)) r' = Inr t'"
    by (rule choice_reaches)
  then obtain r' where "choice (filter (\<lambda>t. topic_count s t = m) (topics s)) r' = Inr t'" ..
  then have "get_topic_more_num_images s r' = Inr t'"
    unfolding m_def get_topic_more_char [OF known ne] .
  then show ?thesis ..
qed

lemma more_of_state_abc:
  "get_topic_more_num_images state_abc r = Inr ''a'' \<or>
   get_topic_more_num_images state_abc r = Inr ''b''"
proof -
  have ev: "get_topic_more_num_images state_abc r = choice [''a'', ''b''] r"
    by (simp add: get_topic_more_num_images_def state_abc_fields pool_abc_def dict_get_def)
  obtain x where "x \<in> set [''a'', ''b'']" and "choice [''a'', ''b''] r = Inr x"
    using choice_member [of "[''a'', ''b'']" r] by auto
  then have "choice [''a'', ''b''] r = Inr ''a'' \<or> choice [''a'', ''b''] r = Inr ''b''"
    by auto
  then show ?thesis unfolding ev .
qed

text \<open>
  Claim C5. When the list of topics is not empty and every topic has a list in
  the pool, \<^verbatim>\<open>get_topic_more_num_images\<close> returns, for every draw \<open>r\<close> of
  \<^verbatim>\<open>choice\<close>, a topic of the list whose number of images is the maximum
  over all topics, and every topic at the maximum is returned for some draw. For
  a pool with three images of \<^verbatim>\<open>a\<close>, three of \<^verbatim>\<open>b\<close> and one of
  \<^verbatim>\<open>c\<close> the result is \<^verbatim>\<open>a\<close> or \<^verbatim>\<open>b\<close>, never \<^verbatim>\<open>c\<close>.
\<close>

theorem most_images_is_a_maximum:
  "(topics s \<noteq> [] \<and> topics_known s \<longrightarrow>
      (\<exists>t. get_topic_more_num_images s r = Inr t \<and> t \<in> set (topics s) \<and>
           topic_count s t = Max (topic_count s ` set (topics s)))) \<and>
   (topics_known s \<and> t' \<in> set (topics s) \<and>
    topic_count s t' = Max (topic_count s ` set (topics s)) \<longrightarrow>
      (\<exists>r'. get_topic_more_num_images s r' = Inr t')) \<and>
   (get_topic_more_num_images state_abc r = Inr ''a'' \<or>
    get_topic_more_num_images state_abc r = Inr ''b'') \<and>
   get_topic_more_num_images state_abc r \<noteq> Inr ''c''"
proof (intro conjI impI)
  assume "topics s \<noteq> [] \<and> topics_known s"
  then show "\<exists>t. get_topic_more_num_images s r = Inr t \<and> t \<in> set (topics s) \<and>
           topic_count s t = Max (topic_count s ` set (topics s))"
    using more_returns_max [of s r] by blast
next
  assume "topics_known s \<and> t' \<in> set (topics s) \<and>
    topic_count s t' = Max (topic_count s ` set (topics s))"
  then show "\<exists>r'. get_topic_more_num_images s r' = Inr t'"
    using more_reaches_every_max [of s t'] by blast
next
  show "get_topic_more_num_images state_abc r = Inr ''a'' \<or>
    get_topic_more_num_images state_abc r = Inr ''b''"
    by (rule more_of_state_abc)
next
  show "get_topic_more_num_images state_abc r \<noteq> Inr ''c''"
    using more_of_state_abc [of r] by auto
qed

text \<open>
  The theorem at the pool with three images of \<^verbatim>\<open>a\<close>, three of \<^verbatim>\<open>b\<close>
  and one of \<^verbatim>\<open>c\<close>: the draw 1 returns \<^verbatim>\<open>b\<close>, whose count 3 is the
  maximum, and \<^verbatim>\<open>a\<close> is returned for some draw.
\<close>

theorem most_images_is_a_maximum_witness:
  "topics (state_abc) \<noteq> [] \<and>
   topics_known (state_abc) \<and>
   (\<exists>t. get_topic_more_num_images (state_abc) 1 = Inr t \<and>
        topic_count (state_abc) t = 3) \<and>
   (\<exists>r'. get_topic_more_num_images (state_abc) r' = Inr ''a'')"
proof -
  let ?s = "state_abc"
  have h1: "topics ?s \<noteq> []" by (simp add: state_abc_fields pool_abc_def)
  have h2: "topics_known ?s"
    by (simp add: topics_known_def dict_has_def state_abc_fields) (simp add: pool_abc_def)
  have cnt: "topic_count ?s ''a'' = 3" "topic_count ?s ''b'' = 3" "topic_count ?s ''c'' = 1"
    by (simp_all add: topic_count_def state_abc_fields) (simp_all add: pool_abc_def)
  have ts: "topics ?s = [''a'', ''b'', ''c'']" by (simp add: state_abc_fields pool_abc_def)
  have mx: "Max (topic_count ?s ` set (topics ?s)) = 3"
    by (simp add: ts cnt)
  have h3: "''a'' \<in> set (topics ?s)" by (simp add: ts)
  have h4: "topic_count ?s ''a'' = Max (topic_count ?s ` set (topics ?s))"
    by (simp only: mx cnt)
  note inst = most_images_is_a_maximum [of ?s 1 "''a''"]
  have c1: "\<exists>t. get_topic_more_num_images ?s 1 = Inr t \<and> t \<in> set (topics ?s) \<and>
           topic_count ?s t = Max (topic_count ?s ` set (topics ?s))"
    using inst h1 h2 by blast
  have c2: "\<exists>r'. get_topic_more_num_images ?s r' = Inr ''a''"
    using inst h2 h3 h4 by blast
  from c1 have c1': "\<exists>t. get_topic_more_num_images ?s 1 = Inr t \<and> topic_count ?s t = 3"
    unfolding mx by blast
  show ?thesis using h1 h2 c1' c2 by blast
qed

section \<open>The session snapshot\<close>

lemma restored_idem: "restored d (restored d s) = restored d s"
  by (simp add: restored_def)

lemma restore_session_cases:
  assumes "pickles_are_dicts w"
  shows "restore_images_data_session w raises s = (Inr False, s) \<or>
         (\<exists>d. \<not> raises \<and> files w (file_session_path s) = Some (Pickled d) \<and>
              distinct (map fst d) \<and>
              restore_images_data_session w raises s = (Inr True, restored d s))"
proof (cases "raises \<or> (\<forall>d. files w (file_session_path s) \<noteq> Some (Pickled d))")
  case True
  then show ?thesis by (simp add: restore_session_absent)
next
  case False
  then obtain d where d: "\<not> raises" "files w (file_session_path s) = Some (Pickled d)" by auto
  then have dist: "distinct (map fst d)" using assms by (auto simp: pickles_are_dicts_def)
  have "restore_images_data_session w False s = (Inr True, restored d s)"
    using d(2) dist by (rule restore_session_char)
  then show ?thesis using d dist by auto
qed





text \<open>
  Claim C9. When every pickled dictionary of the storage has distinct keys,
  calling \<^verbatim>\<open>restore_images_data_session\<close> a second time, with nothing
  changed in between, returns what the first call returned and leaves the state
  the first call left: the same pool, topics, counters and lock table.
\<close>

theorem restore_twice_same_state:
  assumes "pickles_are_dicts w"
  shows "restore_images_data_session w raises (snd (restore_images_data_session w raises s))
       = restore_images_data_session w raises s"
proof -
  from restore_session_cases [OF assms, of raises s]
  show ?thesis
  proof
    assume a: "restore_images_data_session w raises s = (Inr False, s)"
    then show ?thesis by simp
  next
    assume "\<exists>d. \<not> raises \<and> files w (file_session_path s) = Some (Pickled d) \<and>
              distinct (map fst d) \<and>
              restore_images_data_session w raises s = (Inr True, restored d s)"
    then obtain d where d: "\<not> raises" "files w (file_session_path s) = Some (Pickled d)"
      "distinct (map fst d)" "restore_images_data_session w raises s = (Inr True, restored d s)"
      by blast
    have "files w (file_session_path (restored d s)) = Some (Pickled d)"
      using d(2) by (simp add: restored_def)
    then have "restore_images_data_session w False (restored d s) =
        (Inr True, restored d (restored d s))"
      using d(3) by (rule restore_session_char)
    then show ?thesis using d(1,4) by (simp add: restored_idem)
  qed
qed

text \<open>
  The theorem at a storage whose session file holds the pool with seven images,
  read twice by a new manager: both calls leave that pool and count 7.
\<close>

theorem restore_twice_same_state_witness:
  "pickles_are_dicts (session_world pool_abc) \<and>
   restore_images_data_session (session_world pool_abc) False
      (snd (restore_images_data_session (session_world pool_abc) False restarted))
     = restore_images_data_session (session_world pool_abc) False restarted \<and>
   images (snd (restore_images_data_session (session_world pool_abc) False restarted)) = pool_abc"
proof -
  have h: "pickles_are_dicts (session_world pool_abc)"
    by (auto simp: pickles_are_dicts_def session_world_def pool_abc_def split: if_splits)
  have f: "files (session_world pool_abc) (file_session_path restarted) = Some (Pickled pool_abc)"
    by (simp add: session_world_def restarted_def)
  have "distinct (map fst pool_abc)" by (simp add: pool_abc_def)
  with f have "restore_images_data_session (session_world pool_abc) False restarted
      = (Inr True, restored pool_abc restarted)"
    by (rule restore_session_char)
  then have i: "images (snd (restore_images_data_session (session_world pool_abc) False restarted))
      = pool_abc"
    by (simp add: restored_def)
  show ?thesis
    by (intro conjI h i restore_twice_same_state [OF h, of False restarted])
qed

section \<open>Starting and stopping the thread\<close>

lemma restore_images_loop_thread:
  "thread (snd (restore_images_loop t l s)) = thread s"
  by (induction l arbitrary: s) (auto simp: Let_def split: sum.splits)

lemma restore_topics_loop_thread:
  "thread (snd (restore_topics_loop ks s)) = thread s"
proof (induction ks arbitrary: s)
  case Nil
  show ?case by simp
next
  case (Cons k rest)
  let ?s2 = "(if k \<notin> set (topics s) then s\<lparr> topics := topics s @ [k] \<rparr> else s)
               \<lparr> num_images_topic :=
                    dict_set (num_images_topic
                      (if k \<notin> set (topics s) then s\<lparr> topics := topics s @ [k] \<rparr> else s)) k 0 \<rparr>"
  have t2: "thread ?s2 = thread s" by simp
  show ?case
  proof (cases "dict_get (images ?s2) k")
    case (Inl e)
    then show ?thesis using t2 by (simp add: Let_def)
  next
    case (Inr l)
    obtain r s3 where r: "restore_images_loop k l ?s2 = (r, s3)" by (cases "restore_images_loop k l ?s2")
    have t3: "thread s3 = thread s"
      using restore_images_loop_thread [of k l ?s2] r t2 by simp
    show ?thesis
    proof (cases r)
      case (Inl e)
      then show ?thesis using Inr r t3 by (simp add: Let_def)
    next
      case (Inr u)
      then show ?thesis using \<open>dict_get (images ?s2) k = Inr l\<close> r t3 Cons.IH [of s3]
        by (simp add: Let_def)
    qed
  qed
qed

lemma restore_result_thread:
  "thread (snd (case restore_topics_loop ks s0 of
            (Inl e, s') \<Rightarrow> (Inl e, s') | (Inr u, s') \<Rightarrow> (Inr True, s'))) = thread s0"
  using restore_topics_loop_thread [of ks s0]
  by (cases "restore_topics_loop ks s0") (auto split: sum.splits)

lemma restore_session_thread:
  "thread (snd (restore_images_data_session w raises s)) = thread s"
  by (simp add: restore_images_data_session_def restore_result_thread split: option.splits)

lemma setup_topics_loop_thread: "thread (setup_topics_loop ts s) = thread s"
  by (induction ts arbitrary: s) simp_all

lemma do_setup_thread:
  "thread (snd (do_setup w raises dir ts width height max_num s)) = thread s"
proof -
  let ?s1 = "s\<lparr> images_dir := dir, topics := ts, img_width := width, img_height := height \<rparr>"
  let ?s2 = "(if max_num \<noteq> 0 \<and> of_int max_num < max_images_per_hour ?s1
              then ?s1\<lparr> max_images_per_hour := of_int max_num \<rparr> else ?s1)"
  let ?s3 = "setup_topics_loop (topics ?s2) (?s2\<lparr> images := [] \<rparr>)"
  let ?s4 = "?s3\<lparr> file_session_path := images_dir ?s3 @ ''/'' @ FILE_IMAGES_DATA_SESSION \<rparr>"
  have t4: "thread ?s4 = thread s" by (simp add: setup_topics_loop_thread)
  have "thread (snd (restore_images_data_session w raises ?s4)) = thread s"
    using restore_session_thread [of w raises ?s4] t4 by simp
  then show ?thesis
    unfolding do_setup_def Let_def
    by (cases "restore_images_data_session w raises ?s4") (auto split: sum.splits)
qed

lemma get_random_image_thread:
  "thread (snd (get_random_image w raises r_t r_i s)) = thread s"
  by (simp add: get_random_image_def Let_def split: sum.splits option.splits)

lemma thread_step_thread:
  "thread s \<noteq> None \<Longrightarrow> thread (snd (thread_step e w s)) \<noteq> None"
  by (auto simp: thread_step_def split: option.splits thread_state.splits cycle_result.splits)

lemma apply_op_keeps_thread:
  "thread (snd ws) \<noteq> None \<Longrightarrow> thread (snd (apply_op x ws)) \<noteq> None"
proof (cases ws)
  case (Pair w s)
  assume "thread (snd ws) \<noteq> None"
  then have t: "thread s \<noteq> None" using Pair by simp
  show ?thesis
  proof (cases x)
    case (OpSetup raises dir ts width height max_num)
    then show ?thesis using t Pair by (simp add: do_setup_thread)
  next
    case (OpRestore raises)
    then show ?thesis using t Pair by (simp add: restore_session_thread)
  next
    case (OpSave fault)
    then show ?thesis using t Pair by simp
  next
    case (OpGetRandomImage raises r_t r_i)
    then show ?thesis using t Pair by (simp add: get_random_image_thread)
  next
    case (OpStart outcome)
    then show ?thesis using t Pair by (simp add: start_def)
  next
    case OpStop
    then show ?thesis using t Pair
      by (auto simp: stop_def split: option.splits thread_state.splits)
  next
    case (OpCycle e)
    then show ?thesis using t Pair thread_step_thread [of s e w] by simp
  next
    case (OpTamper p c)
    then show ?thesis using t Pair by simp
  qed
qed

lemma run_keeps_thread:
  "thread (snd ws) \<noteq> None \<Longrightarrow> thread (snd (run xs ws)) \<noteq> None"
proof (induction xs arbitrary: ws)
  case Nil
  then show ?case by simp
next
  case (Cons x xs)
  have "thread (snd (apply_op x ws)) \<noteq> None"
    using Cons.prems by (rule apply_op_keeps_thread)
  then have "thread (snd (run xs (apply_op x ws))) \<noteq> None" by (rule Cons.IH)
  then show ?case by simp
qed

lemma start_refused: "thread s \<noteq> None \<Longrightarrow> fst (start outcome s) = False"
  by (simp add: start_def)

lemma state_abc_thread: "thread state_abc = None"
proof -
  have "distinct (map fst pool_abc)" by (simp add: pool_abc_def)
  then show ?thesis unfolding state_abc_def
    by (subst restored_state_eq) (simp_all add: init_def)
qed

text \<open>
  Claim C10. \<^verbatim>\<open>start\<close> before \<^verbatim>\<open>setup\<close> returns \<^verbatim>\<open>False\<close>. When a
  call of \<^verbatim>\<open>start\<close> has returned \<^verbatim>\<open>True\<close>, then after any sequence of
  calls on the object, iterations of the thread and changes of the files, a
  further call of \<^verbatim>\<open>start\<close> returns \<^verbatim>\<open>False\<close>, whatever the thread
  library would do; in particular \<^verbatim>\<open>stop\<close> then returns \<^verbatim>\<open>True\<close> and a
  \<^verbatim>\<open>start\<close> after it returns \<^verbatim>\<open>False\<close>.
\<close>

theorem start_succeeds_at_most_once:
  "(\<not> setup_done s \<longrightarrow> fst (start outcome s) = False) \<and>
   (fst (start outcome s) = True \<longrightarrow>
      fst (start outcome' (snd (run xs (w, snd (start outcome s))))) = False \<and>
      fst (stop (snd (start outcome s))) = True \<and>
      fst (start outcome' (snd (stop (snd (start outcome s))))) = False)"
proof (intro conjI impI)
  assume "\<not> setup_done s"
  then show "fst (start outcome s) = False" by (simp add: start_def)
next
  assume a: "fst (start outcome s) = True"
  then have t: "thread (snd (start outcome s)) \<noteq> None"
    by (auto simp: start_def split: if_splits start_outcome.splits)
  then have "thread (snd (run xs (w, snd (start outcome s)))) \<noteq> None"
    using run_keeps_thread [of "(w, snd (start outcome s))" xs] by simp
  then show "fst (start outcome' (snd (run xs (w, snd (start outcome s))))) = False"
    by (rule start_refused)
  show "fst (stop (snd (start outcome s))) = True"
    using t by (auto simp: stop_def split: option.splits thread_state.splits)
  have "thread (snd (stop (snd (start outcome s)))) \<noteq> None"
    using t by (auto simp: stop_def split: option.splits thread_state.splits)
  then show "fst (start outcome' (snd (stop (snd (start outcome s))))) = False"
    by (rule start_refused)
qed

text \<open>
  The theorem on a manager that was never set up, and on the manager set up with
  the pool of seven images: its first \<^verbatim>\<open>start\<close> succeeds, and after
  \<^verbatim>\<open>stop\<close>, a restore and a file deleted by somebody else, \<^verbatim>\<open>start\<close>
  is refused.
\<close>

theorem start_succeeds_at_most_once_witness:
  "\<not> setup_done (init ''app'' 50 0) \<and>
   fst (start Started (init ''app'' 50 0)) = False \<and>
   fst (start Started state_abc) = True \<and>
   fst (start Started
         (snd (run [OpStop, OpRestore False, OpTamper ''dir/a_0.jpg'' None]
                 (session_world pool_abc, snd (start Started state_abc))))) = False \<and>
   fst (stop (snd (start Started state_abc))) = True \<and>
   fst (start Started (snd (stop (snd (start Started state_abc))))) = False"
proof -
  have h0: "\<not> setup_done (init ''app'' 50 0)" by (simp add: init_def)
  have h1: "fst (start Started state_abc) = True"
    by (simp add: start_def state_abc_fields state_abc_thread)
  note a = start_succeeds_at_most_once [of "init ''app'' 50 0" Started, THEN conjunct1, rule_format, OF h0]
  note b = start_succeeds_at_most_once [of state_abc Started Started
      "[OpStop, OpRestore False, OpTamper ''dir/a_0.jpg'' None]" "session_world pool_abc",
      THEN conjunct2, rule_format, OF h1]
  show ?thesis
    by (intro conjI h0 h1 a b [THEN conjunct1] b [THEN conjunct2, THEN conjunct1]
        b [THEN conjunct2, THEN conjunct2])
qed

section \<open>The image provider\<close>

lemma entries_dict_get: "dict_has d k \<Longrightarrow> dict_get d k = Inr (entries d k)"
  by (auto simp: dict_has_def dict_get_def entries_def)

lemma topic_count_entries: "topic_count s t = int (length (entries (images s) t))"
  by (simp add: topic_count_def entries_def split: option.splits)


lemma counters_ok_known: "counters_ok s \<Longrightarrow> topics_known s"
proof -
  assume ok: "counters_ok s"
  have "\<And>t. t \<in> set (topics s) \<Longrightarrow> dict_has (images s) t"
  proof -
    fix t assume "t \<in> set (topics s)"
    then have "t \<in> fst ` set (images s)" using ok by (simp add: counters_ok_def)
    then show "dict_has (images s) t"
      by (simp add: dict_has_def map_of_eq_None_iff)
  qed
  then show ?thesis by (simp add: topics_known_def)
qed

lemma pool_total_pos_entry:
  "0 < pool_total d \<Longrightarrow> \<exists>kv \<in> set d. snd kv \<noteq> []"
proof (induction d)
  case Nil
  then show ?case by (simp add: pool_total_def)
next
  case (Cons a d)
  show ?case
  proof (cases "snd a = []")
    case True
    then have "0 < pool_total d" using Cons.prems by (simp add: pool_total_def)
    then show ?thesis using Cons.IH by auto
  next
    case False
    then show ?thesis by auto
  qed
qed

lemma pool_total_nonneg: "0 \<le> pool_total d"
  by (induction d) (simp_all add: pool_total_def)

lemma counters_ok_some_topic:
  assumes ok: "counters_ok s" and ne: "num_images s \<noteq> 0"
  shows "topics_with_any_image s \<noteq> []"
proof -
  have "0 < pool_total (images s)"
    using ok ne pool_total_nonneg [of "images s"] by (simp add: counters_ok_def)
  then obtain kv where kv: "kv \<in> set (images s)" "snd kv \<noteq> []"
    using pool_total_pos_entry by blast
  have dist: "distinct (map fst (images s))" using ok by (simp add: counters_ok_def)
  have e: "entries (images s) (fst kv) = snd kv" using dist kv(1) by (rule entries_of_key)
  have "fst kv \<in> set (topics s)" using ok kv(1) by (force simp: counters_ok_def)
  then have "fst kv \<in> set (topics_with_any_image s)"
    using e kv(2) by (simp add: topics_with_any_image_def)
  then show ?thesis by auto
qed


lemma int_length_remove1:
  "x \<in> set l \<Longrightarrow> int (length (remove1 x l)) = int (length l) - 1"
proof -
  assume x: "x \<in> set l"
  then have "0 < length l" by (rule length_pos_if_in_set)
  then have "int (length l - 1) = int (length l) - 1" by (cases "length l") simp_all
  then show ?thesis using x by (simp add: length_remove1)
qed

lemma pool_total_update:
  "distinct (map fst d) \<Longrightarrow> map_of d k = Some l \<Longrightarrow>
   pool_total (AList.update k l' d) = pool_total d - int (length l) + int (length l')"
proof (induction d)
  case Nil
  then show ?case by simp
next
  case (Cons a d)
  show ?case
  proof (cases "fst a = k")
    case True
    then have "snd a = l" using Cons.prems by (cases a) simp
    then show ?thesis using True by (simp add: pool_total_def)
  next
    case False
    then have "map_of d k = Some l" using Cons.prems by (cases a) simp
    moreover have "distinct (map fst d)" using Cons.prems by simp
    ultimately have "pool_total (AList.update k l' d) =
        pool_total d - int (length l) + int (length l')" by (rule Cons.IH [rotated])
    then show ?thesis using False by (simp add: pool_total_def)
  qed
qed

lemma pool_images_remove1:
  "distinct (map fst d) \<Longrightarrow> map_of d k = Some l \<Longrightarrow> img \<in> set l \<Longrightarrow>
   mset (concat (map snd (AList.update k (remove1 img l) d))) =
   mset (concat (map snd d)) - {#img#}"
proof (induction d)
  case Nil
  then show ?case by simp
next
  case (Cons a d)
  show ?case
  proof (cases "fst a = k")
    case True
    then have "snd a = l" using Cons.prems by (cases a) simp
    then show ?thesis using True Cons.prems(3) by simp
  next
    case False
    then have m: "map_of d k = Some l" using Cons.prems by (cases a) simp
    have dist: "distinct (map fst d)" using Cons.prems by simp
    have ih: "mset (concat (map snd (AList.update k (remove1 img l) d))) =
        mset (concat (map snd d)) - {#img#}"
      using dist m Cons.prems(3) by (rule Cons.IH)
    have "(k, l) \<in> set d" using m by (rule map_of_SomeD)
    then have "img \<in> set (concat (map snd d))" using Cons.prems(3) by force
    then have "img \<in># mset (concat (map snd d))" by simp
    then show ?thesis using False ih by simp
  qed
qed

lemma entries_update:
  "entries (AList.update k l' d) t = (if t = k then l' else entries d t)"
  by (simp add: entries_def update_conv')

lemma without_image_pool:
  assumes ok: "counters_ok s" and tin: "t \<in> set (topics s)"
    and img: "img \<in> set (entries (images s) t)"
  shows "mset (pool_images (without_image t img s)) = mset (pool_images s) - {#img#}"
    and "entries (images (without_image t img s)) t = remove1 img (entries (images s) t)"
    and "num_images (without_image t img s) = num_images s - 1"
    and "topic_count (without_image t img s) t = topic_count s t - 1"
    and "dict_get (num_images_topic (without_image t img s)) t = Inr (topic_count s t - 1)"
proof -
  have dist: "distinct (map fst (images s))" using ok by (simp add: counters_ok_def)
  have "dict_has (images s) t" using counters_ok_known [OF ok] tin by (simp add: topics_known_def)
  then have m: "map_of (images s) t = Some (entries (images s) t)"
    by (auto simp: dict_has_def entries_def)
  show "mset (pool_images (without_image t img s)) = mset (pool_images s) - {#img#}"
    using pool_images_remove1 [OF dist m img]
    by (simp add: pool_images_def without_image_def dict_set_def)
  show e: "entries (images (without_image t img s)) t = remove1 img (entries (images s) t)"
    by (simp add: without_image_def dict_set_def entries_update)
  show "num_images (without_image t img s) = num_images s - 1"
    by (simp add: without_image_def)
  show "topic_count (without_image t img s) t = topic_count s t - 1"
    using int_length_remove1 [OF img] by (simp add: topic_count_entries e)
  show "dict_get (num_images_topic (without_image t img s)) t = Inr (topic_count s t - 1)"
    by (simp add: without_image_def dict_set_def dict_get_def update_conv')
qed

lemma without_image_counters_ok:
  assumes ok: "counters_ok s" and tin: "t \<in> set (topics s)"
    and img: "img \<in> set (entries (images s) t)"
  shows "counters_ok (without_image t img s)"
proof -
  let ?s' = "without_image t img s"
  let ?l = "entries (images s) t"
  have dist: "distinct (map fst (images s))" using ok by (simp add: counters_ok_def)
  have keys: "set (map fst (images s)) = set (topics s)" using ok by (simp add: counters_ok_def)
  have "dict_has (images s) t" using counters_ok_known [OF ok] tin by (simp add: topics_known_def)
  then have m: "map_of (images s) t = Some ?l"
    by (auto simp: dict_has_def entries_def)
  have i': "images ?s' = AList.update t (remove1 img ?l) (images s)"
    and n': "num_images_topic ?s' = AList.update t (topic_count s t - 1) (num_images_topic s)"
    and t': "topics ?s' = topics s"
    by (simp_all add: without_image_def dict_set_def)
  have len: "int (length (remove1 img ?l)) = int (length ?l) - 1"
    using img by (rule int_length_remove1)
  have c1: "distinct (map fst (images ?s'))" unfolding i' using dist by (rule distinct_update)
  have "t \<in> fst ` set (images s)" using keys tin by simp
  then have c2: "set (map fst (images ?s')) = set (topics ?s')"
    unfolding i' t' using keys by (auto simp: dom_update)
  have "pool_total (images ?s') = pool_total (images s) - int (length ?l) + int (length (remove1 img ?l))"
    unfolding i' using dist m by (rule pool_total_update)
  then have c3: "num_images ?s' = pool_total (images ?s')"
    using ok len by (simp add: counters_ok_def without_image_def)
  have c4: "\<forall>u \<in> set (topics ?s'). map_of (num_images_topic ?s') u = Some (topic_count ?s' u)"
  proof
    fix u assume "u \<in> set (topics ?s')"
    then have u: "u \<in> set (topics s)" by (simp add: t')
    then have old: "map_of (num_images_topic s) u = Some (topic_count s u)"
      using ok by (simp add: counters_ok_def)
    show "map_of (num_images_topic ?s') u = Some (topic_count ?s' u)"
    proof (cases "u = t")
      case True
      have "topic_count ?s' t = topic_count s t - 1"
        using ok tin img by (rule without_image_pool(4))
      then show ?thesis using True by (simp add: n' update_conv')
    next
      case False
      then have "entries (images ?s') u = entries (images s) u"
        by (simp add: i' entries_update)
      then have "topic_count ?s' u = topic_count s u" by (simp add: topic_count_entries)
      then show ?thesis using False old by (simp add: n' update_conv')
    qed
  qed
  show ?thesis unfolding counters_ok_def using c1 c2 c3 c4 by blast
qed

lemma pool_total_length: "pool_total d = int (length (concat (map snd d)))"
  by (induction d) (simp_all add: pool_total_def)

lemma counters_ok_empty_iff: "counters_ok s \<Longrightarrow> (pool_images s = []) = (num_images s = 0)"
  by (simp add: counters_ok_def pool_total_length pool_images_def)

lemma counters_ok_restored_fields:
  assumes "distinct (map fst d)" and "images s = d" and "topics s = map fst d"
    and "num_images s = pool_total d"
    and "num_images_topic s = map (\<lambda>kv. (fst kv, int (length (snd kv)))) d"
  shows "counters_ok s"
proof -
  have "\<forall>t \<in> set (map fst d).
      map_of (map (\<lambda>kv. (fst kv, int (length (snd kv)))) d) t = Some (topic_count s t)"
  proof
    fix t assume "t \<in> set (map fst d)"
    then obtain kv where kv: "kv \<in> set d" "t = fst kv" by auto
    have m: "map_of d (fst kv) = Some (snd kv)"
      using assms(1) kv(1) by (intro map_of_is_SomeI) simp_all
    have "map_of (map (\<lambda>kv. (fst kv, int (length (snd kv)))) d) t =
          map_option (\<lambda>l. int (length l)) (map_of d t)"
      by (induction d) auto
    then show "map_of (map (\<lambda>kv. (fst kv, int (length (snd kv)))) d) t = Some (topic_count s t)"
      using m kv(2) by (simp add: topic_count_def assms(2))
  qed
  then show ?thesis using assms by (simp add: counters_ok_def)
qed




section \<open>The eviction of a cycle\<close>

lemma after_connect_fields:
  "images (after_connect e s) = images s"
  "topics (after_connect e s) = topics s"
  "num_images (after_connect e s) = num_images s"
  "num_images_topic (after_connect e s) = num_images_topic s"
  "max_images_per_hour (after_connect e s) = max_images_per_hour s"
  "api_requests_counter (after_connect e s) = api_requests_counter s"
  "max_api_requests_per_hour (after_connect e s) = max_api_requests_per_hour s"
  by (simp_all add: after_connect_def connect_def)

lemma counters_ok_after_connect: "counters_ok (after_connect e s) = counters_ok s"
  by (simp add: counters_ok_def topic_count_def after_connect_fields)

lemma pool_images_after_connect: "pool_images (after_connect e s) = pool_images s"
  by (simp add: pool_images_def after_connect_fields)

lemma manage_cycle_evicts:
  assumes "api_requests_counter s \<noteq> max_api_requests_per_hour s"
    and "connected (after_connect e s)"
    and "max_images_per_hour s \<le> of_int (num_images s)"
  shows "manage_cycle e w s first_iteration = evict_phase e w (after_connect e s)"
  using assms
  by (simp add: manage_cycle_def Let_def after_connect_fields
      after_connect_def [symmetric])

lemma max_count_positive:
  assumes ok: "counters_ok s" and ne: "pool_images s \<noteq> []"
  shows "0 < Max (topic_count s ` set (topics s))"
proof -
  have "num_images s \<noteq> 0" using ok ne counters_ok_empty_iff [of s] by blast
  then have "topics_with_any_image s \<noteq> []" using ok by (intro counters_ok_some_topic)
  then obtain t where t: "t \<in> set (topics s)" "entries (images s) t \<noteq> []"
    by (auto simp: topics_with_any_image_def filter_empty_conv)
  then have "0 < topic_count s t" by (simp add: topic_count_entries)
  moreover have "topic_count s t \<le> Max (topic_count s ` set (topics s))" using t(1) by simp
  ultimately show ?thesis by linarith
qed

lemma evict_phase_char:
  assumes ok: "counters_ok s" and ne: "pool_images s \<noteq> []"
  shows "\<exists>topic img.
      get_topic_more_num_images s (r_topic e) = Inr topic \<and>
      choice (entries (images s) topic) (r_image e) = Inr img \<and>
      topic \<in> set (topics s) \<and> img \<in> set (entries (images s) topic) \<and>
      topic_count s topic = Max (topic_count s ` set (topics s)) \<and>
      evict_phase e w s =
        (if snd (remove_image_file w (remove_raises e) (file_path img))
         then download_phase e (fst (remove_image_file w (remove_raises e) (file_path img)))
                (without_image topic img s) topic
         else Next w s False)"
proof -
  have known: "topics_known s" using ok by (rule counters_ok_known)
  have tne: "topics s \<noteq> []"
    using counters_ok_some_topic [OF ok] ok ne counters_ok_empty_iff [of s]
    by (auto simp: topics_with_any_image_def)
  from more_returns_max [OF tne known, of "r_topic e"]
  obtain topic where topic: "get_topic_more_num_images s (r_topic e) = Inr topic"
      "topic \<in> set (topics s)" "topic_count s topic = Max (topic_count s ` set (topics s))"
    by blast
  have "0 < topic_count s topic" using max_count_positive [OF ok ne] topic(3) by simp
  then have lne: "entries (images s) topic \<noteq> []" by (simp add: topic_count_entries)
  then have "\<exists>x \<in> set (entries (images s) topic).
      choice (entries (images s) topic) (r_image e) = Inr x"
    by (rule choice_member)
  then obtain img where img: "img \<in> set (entries (images s) topic)"
      "choice (entries (images s) topic) (r_image e) = Inr img" ..
  have "dict_has (images s) topic" using known topic(2) by (simp add: topics_known_def)
  then have g: "dict_get (images s) topic = Inr (entries (images s) topic)"
    by (rule entries_dict_get)
  have "map_of (num_images_topic s) topic = Some (topic_count s topic)"
    using ok topic(2) by (simp add: counters_ok_def)
  then have n: "dict_get (num_images_topic s) topic = Inr (topic_count s topic)"
    by (simp add: dict_get_def)
  have rm: "fst (remove_image_file w (remove_raises e) (file_path img)) = w"
    if "\<not> snd (remove_image_file w (remove_raises e) (file_path img))"
    using that by (simp add: remove_image_file_def split: if_splits)
  have "evict_phase e w s =
        (if snd (remove_image_file w (remove_raises e) (file_path img))
         then download_phase e (fst (remove_image_file w (remove_raises e) (file_path img)))
                (without_image topic img s) topic
         else Next w s False)"
  proof (cases "remove_image_file w (remove_raises e) (file_path img)")
    case (Pair w1 removed)
    show ?thesis
    proof (cases removed)
      case True
      then show ?thesis
        using Pair by (simp add: evict_phase_def topic(1) g img(2) n without_image_def Let_def)
    next
      case False
      then have "w1 = w" using rm Pair by simp
      then show ?thesis
        using Pair False by (simp add: evict_phase_def topic(1) g img(2))
    qed
  qed
  then show ?thesis
    by (intro exI [of _ topic] exI [of _ img] conjI topic img)
qed

lemma get_topic_more_after_connect:
  "get_topic_more_num_images (after_connect e s) r = get_topic_more_num_images s r"
  unfolding get_topic_more_num_images_def after_connect_fields ..

lemma topic_count_after_connect: "topic_count (after_connect e s) t = topic_count s t"
  by (simp add: topic_count_def after_connect_fields)

lemma remove_image_file_gone:
  "snd (remove_image_file w raises p) \<Longrightarrow> files (fst (remove_image_file w raises p)) p = None"
  by (simp add: remove_image_file_def split: if_splits)

text \<open>
  Claim C7. Take an iteration of \<^verbatim>\<open>manage\<close> that is not blocked by the
  request limit, is connected (already, or by the call of \<^verbatim>\<open>connect\<close> in
  it) and finds \<^verbatim>\<open>num_images\<close> at or above the cap, in a state whose
  counters agree with a non-empty pool. It selects a topic with
  \<^verbatim>\<open>get_topic_more_num_images\<close> and an image of it with \<^verbatim>\<open>choice\<close>.
  When \<^verbatim>\<open>remove_image_file\<close> returns \<^verbatim>\<open>False\<close> the iteration ends
  there: the storage is untouched, the pool, \<^verbatim>\<open>num_images\<close>,
  \<^verbatim>\<open>num_images_topic\<close> and the request counter are as before, nothing is
  downloaded. When it returns \<^verbatim>\<open>True\<close> the file is gone, the pool loses
  exactly that image, \<^verbatim>\<open>num_images\<close> and the counter of the topic are each
  one less, and the iteration goes on to download for that topic.
\<close>

theorem eviction_keeps_memory_and_files_consistent:
  assumes "api_requests_counter s \<noteq> max_api_requests_per_hour s"
    and "connected (after_connect e s)"
    and "max_images_per_hour s \<le> of_int (num_images s)"
    and "counters_ok s"
    and "pool_images s \<noteq> []"
  shows "\<exists>topic img.
      get_topic_more_num_images s (r_topic e) = Inr topic \<and>
      choice (entries (images s) topic) (r_image e) = Inr img \<and>
      img \<in> set (entries (images s) topic) \<and>
      (\<not> snd (remove_image_file w (remove_raises e) (file_path img)) \<longrightarrow>
         manage_cycle e w s first_iteration = Next w (after_connect e s) False \<and>
         images (after_connect e s) = images s \<and>
         num_images (after_connect e s) = num_images s \<and>
         num_images_topic (after_connect e s) = num_images_topic s \<and>
         api_requests_counter (after_connect e s) = api_requests_counter s) \<and>
      (snd (remove_image_file w (remove_raises e) (file_path img)) \<longrightarrow>
         manage_cycle e w s first_iteration =
           download_phase e (fst (remove_image_file w (remove_raises e) (file_path img)))
             (without_image topic img (after_connect e s)) topic \<and>
         files (fst (remove_image_file w (remove_raises e) (file_path img))) (file_path img)
           = None \<and>
         mset (pool_images (without_image topic img (after_connect e s))) =
           mset (pool_images s) - {#img#} \<and>
         entries (images (without_image topic img (after_connect e s))) topic =
           remove1 img (entries (images s) topic) \<and>
         num_images (without_image topic img (after_connect e s)) = num_images s - 1 \<and>
         dict_get (num_images_topic s) topic = Inr (topic_count s topic) \<and>
         dict_get (num_images_topic (without_image topic img (after_connect e s))) topic =
           Inr (topic_count s topic - 1))"
proof -
  let ?s1 = "after_connect e s"
  have ok1: "counters_ok ?s1" using assms(4) by (simp add: counters_ok_after_connect)
  have ne1: "pool_images ?s1 \<noteq> []" using assms(5) by (simp add: pool_images_after_connect)
  have cyc: "manage_cycle e w s first_iteration = evict_phase e w ?s1"
    using assms(1-3) by (rule manage_cycle_evicts)
  from evict_phase_char [OF ok1 ne1, of e w]
  obtain topic img where c:
      "get_topic_more_num_images ?s1 (r_topic e) = Inr topic"
      "choice (entries (images ?s1) topic) (r_image e) = Inr img"
      "topic \<in> set (topics ?s1)" "img \<in> set (entries (images ?s1) topic)"
      "evict_phase e w ?s1 =
        (if snd (remove_image_file w (remove_raises e) (file_path img))
         then download_phase e (fst (remove_image_file w (remove_raises e) (file_path img)))
                (without_image topic img ?s1) topic
         else Next w ?s1 False)"
    by (elim exE conjE)
  note eff = without_image_pool [OF ok1 c(3) c(4)]
  have g1: "get_topic_more_num_images s (r_topic e) = Inr topic"
    using c(1) by (simp add: get_topic_more_after_connect)
  have g2: "choice (entries (images s) topic) (r_image e) = Inr img"
    using c(2) by (simp add: after_connect_fields)
  have g3: "img \<in> set (entries (images s) topic)"
    using c(4) by (simp add: after_connect_fields)
  have old: "dict_get (num_images_topic s) topic = Inr (topic_count s topic)"
    using assms(4) c(3) by (simp add: counters_ok_def dict_get_def after_connect_fields)
  have fail: "\<not> snd (remove_image_file w (remove_raises e) (file_path img)) \<longrightarrow>
         manage_cycle e w s first_iteration = Next w ?s1 False \<and>
         images ?s1 = images s \<and> num_images ?s1 = num_images s \<and>
         num_images_topic ?s1 = num_images_topic s \<and>
         api_requests_counter ?s1 = api_requests_counter s"
    using cyc c(5) by (simp add: after_connect_fields)
  have good: "snd (remove_image_file w (remove_raises e) (file_path img)) \<longrightarrow>
         manage_cycle e w s first_iteration =
           download_phase e (fst (remove_image_file w (remove_raises e) (file_path img)))
             (without_image topic img ?s1) topic \<and>
         files (fst (remove_image_file w (remove_raises e) (file_path img))) (file_path img)
           = None \<and>
         mset (pool_images (without_image topic img ?s1)) = mset (pool_images s) - {#img#} \<and>
         entries (images (without_image topic img ?s1)) topic =
           remove1 img (entries (images s) topic) \<and>
         num_images (without_image topic img ?s1) = num_images s - 1 \<and>
         dict_get (num_images_topic s) topic = Inr (topic_count s topic) \<and>
         dict_get (num_images_topic (without_image topic img ?s1)) topic =
           Inr (topic_count s topic - 1)"
    using cyc c(5) eff(1,2,3,5) old remove_image_file_gone [of w "remove_raises e" "file_path img"]
    by (simp add: after_connect_fields pool_images_after_connect topic_count_after_connect)
  show ?thesis
    by (rule exI [of _ topic], rule exI [of _ img]) (intro conjI g1 g2 g3 fail good)
qed

lemma restored_state_fields:
  assumes "distinct (map fst d)"
  shows "topics (restored_state m c d) = map fst d"
    and "images (restored_state m c d) = d"
    and "num_images (restored_state m c d) = pool_total d"
    and "num_images_topic (restored_state m c d) = map (\<lambda>kv. (fst kv, int (length (snd kv)))) d"
    and "max_images_per_hour (restored_state m c d) =
           (if c \<noteq> 0 \<and> (of_int c :: rat) < of_int m / 2 then of_int c else of_int m / 2)"
    and "max_api_requests_per_hour (restored_state m c d) = m"
    and "api_requests_counter (restored_state m c d) = 0"
    and "setup_done (restored_state m c d)"
    and "thread (restored_state m c d) = None"
    and "connected (restored_state m c d) = False"
    and "api (restored_state m c d) = False"
    and "images_dir (restored_state m c d) = ''dir''"
    and "file_session_path (restored_state m c d) = ''dir/session_img_data.pkl''"
    and "first_image_in_this_hour (restored_state m c d)"
  unfolding restored_state_eq [OF assms] by (simp_all add: init_def)

lemma state_xx_fields:
  "topics state_xx = [''x'']"
  "images state_xx = pool_xx"
  "num_images state_xx = 2"
  "num_images_topic state_xx = [(''x'', 2)]"
  "max_images_per_hour state_xx = 2"
  "max_api_requests_per_hour state_xx = 50"
  "api_requests_counter state_xx = 0"
  "setup_done state_xx"
  "thread state_xx = None"
  "connected state_xx = False"
  "api state_xx = False"
  "images_dir state_xx = ''dir''"
  "file_session_path state_xx = ''dir/session_img_data.pkl''"
  "first_image_in_this_hour state_xx"
proof -
  have d: "distinct (map fst pool_xx)" by (simp add: pool_xx_def)
  note f = restored_state_fields [OF d, of 50 2, folded state_xx_def]
  show "topics state_xx = [''x'']" by (simp add: f) (simp add: pool_xx_def)
  show "images state_xx = pool_xx" by (simp add: f)
  show "num_images state_xx = 2" by (simp add: f) (simp add: pool_xx_def pool_total_def)
  show "num_images_topic state_xx = [(''x'', 2)]" by (simp add: f) (simp add: pool_xx_def)
  show "max_images_per_hour state_xx = 2" by (simp add: f)
  show "max_api_requests_per_hour state_xx = 50" by (simp add: f)
  show "api_requests_counter state_xx = 0" by (simp add: f)
  show "setup_done state_xx" by (simp add: f)
  show "thread state_xx = None" by (simp add: f)
  show "connected state_xx = False" by (simp add: f)
  show "api state_xx = False" by (simp add: f)
  show "images_dir state_xx = ''dir''" by (simp add: f)
  show "file_session_path state_xx = ''dir/session_img_data.pkl''" by (simp add: f)
  show "first_image_in_this_hour state_xx" by (simp add: f)
qed

lemma state_xx_counters_ok: "counters_ok state_xx"
  by (rule counters_ok_restored_fields [of pool_xx])
     (simp_all add: state_xx_fields, simp_all add: pool_xx_def pool_total_def)

text \<open>
  The theorem at the manager whose pool holds two images of \<^verbatim>\<open>x\<close> under the
  cap 2. Over the storage that holds both files, the first image is removed and
  one image stays counted. Over a storage without the image files the removal
  fails and the iteration ends with the state it had after connecting.
\<close>

theorem eviction_keeps_memory_and_files_consistent_witness:
  "api_requests_counter state_xx \<noteq> max_api_requests_per_hour state_xx \<and>
   connected (after_connect env_ok state_xx) \<and>
   max_images_per_hour state_xx \<le> of_int (num_images state_xx) \<and>
   counters_ok state_xx \<and> pool_images state_xx \<noteq> [] \<and>
   manage_cycle env_ok world_xx state_xx True =
     download_phase env_ok (fst (remove_image_file world_xx False ''dir/x_0.jpg''))
       (without_image ''x'' (img_at ''dir/x_0.jpg'') (after_connect env_ok state_xx)) ''x'' \<and>
   num_images (without_image ''x'' (img_at ''dir/x_0.jpg'') (after_connect env_ok state_xx)) = 1 \<and>
   manage_cycle env_ok (session_world pool_xx) state_xx True =
     Next (session_world pool_xx) (after_connect env_ok state_xx) False"
proof -
  have h1: "api_requests_counter state_xx \<noteq> max_api_requests_per_hour state_xx"
    by (simp add: state_xx_fields)
  have h2: "connected (after_connect env_ok state_xx)"
    by (simp add: after_connect_def connect_def state_xx_fields env_ok_def)
  have h3: "max_images_per_hour state_xx \<le> of_int (num_images state_xx)"
    by (simp add: state_xx_fields)
  have h4: "counters_ok state_xx" by (rule state_xx_counters_ok)
  have h5: "pool_images state_xx \<noteq> []"
    by (simp add: pool_images_def state_xx_fields pool_xx_def)
  have more: "get_topic_more_num_images state_xx (r_topic env_ok) = Inr ''x''"
    by (simp add: get_topic_more_num_images_def state_xx_fields pool_xx_def dict_get_def
        choice_def)
  have pick: "choice (entries (images state_xx) ''x'') (r_image env_ok) = Inr (img_at ''dir/x_0.jpg'')"
    by (simp add: state_xx_fields pool_xx_def entries_def choice_def env_ok_def)
  have rr: "remove_raises env_ok = False" by (simp add: env_ok_def)
  have p: "file_path (img_at ''dir/x_0.jpg'') = ''dir/x_0.jpg''" by (simp add: img_at_def)
  have rm_ok: "snd (remove_image_file world_xx False ''dir/x_0.jpg'')"
    by (simp add: remove_image_file_def path_exists_def world_xx_def)
  have rm_no: "\<not> snd (remove_image_file (session_world pool_xx) False ''dir/x_0.jpg'')"
    by (simp add: remove_image_file_def path_exists_def session_world_def)
  have n2: "num_images state_xx = 2" by (simp add: state_xx_fields)
  have a: "manage_cycle env_ok world_xx state_xx True =
       download_phase env_ok (fst (remove_image_file world_xx False ''dir/x_0.jpg''))
         (without_image ''x'' (img_at ''dir/x_0.jpg'') (after_connect env_ok state_xx)) ''x''
     \<and> num_images (without_image ''x'' (img_at ''dir/x_0.jpg'') (after_connect env_ok state_xx)) = 1"
  proof -
    from eviction_keeps_memory_and_files_consistent [OF h1 h2 h3 h4 h5, of world_xx True]
    obtain topic img where c:
      "get_topic_more_num_images state_xx (r_topic env_ok) = Inr topic"
      "choice (entries (images state_xx) topic) (r_image env_ok) = Inr img"
      and good: "snd (remove_image_file world_xx (remove_raises env_ok) (file_path img)) \<longrightarrow>
         manage_cycle env_ok world_xx state_xx True =
           download_phase env_ok
             (fst (remove_image_file world_xx (remove_raises env_ok) (file_path img)))
             (without_image topic img (after_connect env_ok state_xx)) topic \<and>
         files (fst (remove_image_file world_xx (remove_raises env_ok) (file_path img)))
             (file_path img) = None \<and>
         mset (pool_images (without_image topic img (after_connect env_ok state_xx))) =
           mset (pool_images state_xx) - {#img#} \<and>
         entries (images (without_image topic img (after_connect env_ok state_xx))) topic =
           remove1 img (entries (images state_xx) topic) \<and>
         num_images (without_image topic img (after_connect env_ok state_xx)) =
           num_images state_xx - 1 \<and>
         dict_get (num_images_topic state_xx) topic = Inr (topic_count state_xx topic) \<and>
         dict_get (num_images_topic (without_image topic img (after_connect env_ok state_xx)))
           topic = Inr (topic_count state_xx topic - 1)"
      by (elim exE conjE)
    have t: "topic = ''x''" using c(1) more by simp
    have i: "img = img_at ''dir/x_0.jpg''" using c(2) pick unfolding t by simp
    note g = good [unfolded t i rr p, THEN mp, OF rm_ok]
    have "num_images (without_image ''x'' (img_at ''dir/x_0.jpg'') (after_connect env_ok state_xx))
        = num_images state_xx - 1"
      by (rule g [THEN conjunct2, THEN conjunct2, THEN conjunct2, THEN conjunct2, THEN conjunct1])
    then have "num_images (without_image ''x'' (img_at ''dir/x_0.jpg'')
        (after_connect env_ok state_xx)) = 1"
      by (simp only: n2)
    then show ?thesis using g [THEN conjunct1] by (intro conjI)
  qed
  have b: "manage_cycle env_ok (session_world pool_xx) state_xx True =
     Next (session_world pool_xx) (after_connect env_ok state_xx) False"
  proof -
    from eviction_keeps_memory_and_files_consistent [OF h1 h2 h3 h4 h5,
        of "session_world pool_xx" True]
    obtain topic img where c:
      "get_topic_more_num_images state_xx (r_topic env_ok) = Inr topic"
      "choice (entries (images state_xx) topic) (r_image env_ok) = Inr img"
      and fail: "\<not> snd (remove_image_file (session_world pool_xx) (remove_raises env_ok)
                     (file_path img)) \<longrightarrow>
         manage_cycle env_ok (session_world pool_xx) state_xx True =
           Next (session_world pool_xx) (after_connect env_ok state_xx) False \<and>
         images (after_connect env_ok state_xx) = images state_xx \<and>
         num_images (after_connect env_ok state_xx) = num_images state_xx \<and>
         num_images_topic (after_connect env_ok state_xx) = num_images_topic state_xx \<and>
         api_requests_counter (after_connect env_ok state_xx) = api_requests_counter state_xx"
      by (elim exE conjE)
    have t: "topic = ''x''" using c(1) more by simp
    have i: "img = img_at ''dir/x_0.jpg''" using c(2) pick unfolding t by simp
    note g = fail [unfolded t i rr p, THEN mp, OF rm_no]
    show ?thesis by (rule g [THEN conjunct1])
  qed
  show ?thesis by (intro conjI h1 h2 h3 h4 h5 a [THEN conjunct1] a [THEN conjunct2] b)
qed

section \<open>The request counter against the limit\<close>

text \<open>
  Claim C1 says that \<^verbatim>\<open>api_requests_counter\<close> never exceeds
  \<^verbatim>\<open>max_api_requests_per_hour\<close>. The loop blocks only when the two are equal
  (line 284) and a download adds two. With the limit 3, two successful
  iterations leave the counter at 4 and a third one, not blocked, at 6. With the
  limit 2, an iteration whose HTTP request raises after the search leaves the
  counter at 1 and the next successful one at 3.
\<close>

theorem request_counter_passes_limit:
  "max_api_requests_per_hour (snd (run_fresh 3 0 [env_ok, env_ok])) = 3 \<and>
   api_requests_counter (snd (run_fresh 3 0 [env_ok, env_ok])) = 4 \<and>
   api_requests_counter (snd (run_fresh 3 0 [env_ok, env_ok, env_ok])) = 6 \<and>
   max_api_requests_per_hour (snd (run_fresh 2 0 [env_fetch_raises, env_ok])) = 2 \<and>
   api_requests_counter (snd (run_fresh 2 0 [env_fetch_raises])) = 1 \<and>
   api_requests_counter (snd (run_fresh 2 0 [env_fetch_raises, env_ok])) = 3"
  by (intro conjI; code_simp)

section \<open>The paths of the images of the pool\<close>

text \<open>
  Claim C2 says that no two images of the pool share a \<^verbatim>\<open>file_path\<close>. With
  the cap 2 and the topic \<^verbatim>\<open>x\<close>, two iterations store \<^verbatim>\<open>x_0.jpg\<close> and
  \<^verbatim>\<open>x_1.jpg\<close>. The third evicts the image drawn by \<^verbatim>\<open>choice\<close>, here
  the first, and names the new file after the count of the topic, which is 1
  again: the pool then holds two images with the path \<^verbatim>\<open>dir/x_1.jpg\<close>, the
  file of the older one was overwritten, and \<^verbatim>\<open>dir/x_0.jpg\<close> is gone.
\<close>

theorem eviction_then_download_repeats_path:
  "map file_path (pool_images (snd (run_fresh 50 2 [env_ok, env_ok]))) =
     [''dir/x_0.jpg'', ''dir/x_1.jpg''] \<and>
   map file_path (pool_images (snd (run_fresh 50 2 [env_ok, env_ok, env_ok]))) =
     [''dir/x_1.jpg'', ''dir/x_1.jpg''] \<and>
   \<not> paths_unique (snd (run_fresh 50 2 [env_ok, env_ok, env_ok])) \<and>
   num_images (snd (run_fresh 50 2 [env_ok, env_ok, env_ok])) = 2 \<and>
   files (fst (run_fresh 50 2 [env_ok, env_ok, env_ok])) ''dir/x_0.jpg'' = None \<and>
   files (fst (run_fresh 50 2 [env_ok, env_ok, env_ok])) ''dir/x_1.jpg'' = Some (Bytes ''new'')"
  by (intro conjI; code_simp)

section \<open>The counters after a second setup\<close>

text \<open>
  Claim C3 says that \<^verbatim>\<open>num_images\<close> is always the size of the pool.
  \<^verbatim>\<open>setup\<close> empties the pool and sets the counter of every topic to 0, but
  leaves \<^verbatim>\<open>num_images\<close> as it is; only a restored session recomputes it.
  After one downloaded image, a second \<^verbatim>\<open>setup\<close> on a directory without a
  session file leaves an empty pool and \<^verbatim>\<open>num_images = 1\<close>.
\<close>

theorem second_setup_keeps_num_images:
  "num_images (snd (run_fresh 50 2 [env_ok])) = 1 \<and>
   pool_total (images (snd (run_fresh 50 2 [env_ok]))) = 1 \<and>
   num_images (snd (apply_op (OpSetup False ''other'' [''x''] 320 240 2)
                      (run_fresh 50 2 [env_ok]))) = 1 \<and>
   images (snd (apply_op (OpSetup False ''other'' [''x''] 320 240 2)
                      (run_fresh 50 2 [env_ok]))) = [(''x'', [])] \<and>
   pool_total (images (snd (apply_op (OpSetup False ''other'' [''x''] 320 240 2)
                      (run_fresh 50 2 [env_ok])))) = 0 \<and>
   num_images_topic (snd (apply_op (OpSetup False ''other'' [''x''] 320 240 2)
                      (run_fresh 50 2 [env_ok]))) = [(''x'', 0)]"
  by (intro conjI; code_simp)


end
